theory Spec2Isabelle
  imports Complex_Main
begin

section \<open>Data model of the canvas component\<close>

text \<open>
  The definitions below follow \<open>daggr/canvas-component/frontend/Index.svelte\<close>.
  JavaScript numbers are modelled as real numbers, arrays as lists, the \<open>Set<string>\<close>
  as a set of strings, and a value that may be \<open>undefined\<close> or \<open>null\<close> as an
  \<open>option\<close>. An exception that the code throws is a value of type \<open>error\<close>.
\<close>

datatype error = TypeError | ReferenceError

text \<open>
  The dictionaries of the component (\<open>Record<string, T>\<close>) are plain objects. Their own
  entries are a map from strings. A read \<open>dict[key]\<close> of a key without an own entry
  falls through to \<open>Object.prototype\<close>: for the names below it yields the inherited
  function (or, for \<open>__proto__\<close>, the prototype object), which is truthy, is no array
  and has the \<open>length\<close> listed (\<open>None\<close> where it has none). \<open>get\<close> is that read.
  A write \<open>dict[key] = v\<close> makes an own entry. The code writes under a key only after
  a read under that key has found an own entry or nothing, or under a freshly minted run
  id, which no inherited name equals. Starting from empty dictionaries no own entry under
  an inherited name arises that way, so every write of the code is an ordinary one.
\<close>

definition objectPrototype :: "string \<rightharpoonup> nat option" where
  "objectPrototype =
     [''constructor'' \<mapsto> Some 1, ''__defineGetter__'' \<mapsto> Some 2, ''__defineSetter__'' \<mapsto> Some 2,
      ''hasOwnProperty'' \<mapsto> Some 1, ''__lookupGetter__'' \<mapsto> Some 1, ''__lookupSetter__'' \<mapsto> Some 1,
      ''isPrototypeOf'' \<mapsto> Some 1, ''propertyIsEnumerable'' \<mapsto> Some 1, ''toString'' \<mapsto> Some 0,
      ''valueOf'' \<mapsto> Some 0, ''__proto__'' \<mapsto> None, ''toLocaleString'' \<mapsto> Some 0]"

datatype 'a lookup = Own 'a | Inherited "nat option" | Absent

definition get :: "(string \<rightharpoonup> 'a) \<Rightarrow> string \<Rightarrow> 'a lookup" where
  "get dict key =
     (case dict key of
        Some v \<Rightarrow> Own v
      | None \<Rightarrow> (case objectPrototype key of Some len \<Rightarrow> Inherited len | None \<Rightarrow> Absent))"

record Port =
  port_name :: string

record GradioComponentData =
  component :: string
  comp_port_name :: string
  comp_value :: "string option"

record GraphNode =
  node_id :: string
  node_name :: string
  node_inputs :: "Port list"
  node_outputs :: "string list"
  input_components :: "GradioComponentData list option"
  output_components :: "GradioComponentData list option"
  node_x :: real
  node_y :: real
  is_input_node :: bool

record GraphEdge =
  edge_id :: string
  from_node :: string
  to_node :: string

text \<open>
  \<open>CanvasData\<close> is the value received from the engine. It carries the graph and, for a
  completion notification, \<open>run_id\<close> and \<open>completed_node\<close>.
\<close>

record CanvasData =
  cd_nodes :: "GraphNode list option"
  cd_edges :: "GraphEdge list option"
  cd_inputs :: "(string \<rightharpoonup> (string \<rightharpoonup> string)) option"
  run_to_node :: "string option"
  run_id :: "string option"
  completed_node :: "string option"

record Transform =
  tx :: real
  ty :: real
  scale :: real

text \<open>\<open>let transform = $state({ x: 0, y: 0, scale: 1 })\<close>\<close>

definition initialTransform :: Transform where
  "initialTransform = \<lparr>tx = 0, ty = 0, scale = 1\<rparr>"

section \<open>Snapshot ingestion: the derived node and edge lists\<close>

text \<open>
  \<open>nodes\<close> and \<open>edges\<close> are \<open>$derived.by\<close> values over \<open>gradio.props.value\<close> that
  fall back to \<open>lastValidNodes\<close> / \<open>lastValidEdges\<close>. The derivation is the same for
  both, so it is modelled once, over the list read from the value: it returns the value
  of the derived variable and the new content of the \<open>lastValid\<close> variable. The
  derivation is evaluated once for every inbound value.
\<close>

definition derivedBy :: "'a list \<Rightarrow> 'a list option \<Rightarrow> 'a list \<times> 'a list" where
  "derivedBy lastValid new =
     (case new of
        None \<Rightarrow> (lastValid, lastValid)
      | Some newItems \<Rightarrow>
          if length newItems > 0 then (newItems, newItems) else (lastValid, lastValid))"

text \<open>\<open>gradio.props.value?.nodes\<close> and \<open>gradio.props.value?.edges\<close>\<close>

definition valueNodes :: "CanvasData option \<Rightarrow> GraphNode list option" where
  "valueNodes v = (case v of None \<Rightarrow> None | Some d \<Rightarrow> cd_nodes d)"

definition valueEdges :: "CanvasData option \<Rightarrow> GraphEdge list option" where
  "valueEdges v = (case v of None \<Rightarrow> None | Some d \<Rightarrow> cd_edges d)"

record Graph =
  nodes :: "GraphNode list"
  edges :: "GraphEdge list"
  lastValidNodes :: "GraphNode list"
  lastValidEdges :: "GraphEdge list"

text \<open>\<open>let lastValidNodes = []; let lastValidEdges = []\<close>\<close>

definition initialGraph :: Graph where
  "initialGraph = \<lparr>nodes = [], edges = [], lastValidNodes = [], lastValidEdges = []\<rparr>"

definition receive :: "Graph \<Rightarrow> CanvasData option \<Rightarrow> Graph" where
  "receive g v =
     (let (ns, lastNs) = derivedBy (lastValidNodes g) (valueNodes v);
          (es, lastEs) = derivedBy (lastValidEdges g) (valueEdges v)
      in \<lparr>nodes = ns, edges = es, lastValidNodes = lastNs, lastValidEdges = lastEs\<rparr>)"

text \<open>A list that is empty or absent, as the guard \<open>newNodes && newNodes.length > 0\<close> sees it.\<close>

definition emptyOrAbsent :: "'a list option \<Rightarrow> bool" where
  "emptyOrAbsent new = (case new of None \<Rightarrow> True | Some xs \<Rightarrow> xs = [])"

section \<open>Viewport: zoom buttons and wheel zoom\<close>

definition zoomIn :: "Transform \<Rightarrow> Transform" where
  "zoomIn t = t\<lparr>scale := min 3 (scale t * 1.2)\<rparr>"

definition zoomOut :: "Transform \<Rightarrow> Transform" where
  "zoomOut t = t\<lparr>scale := max 0.2 (scale t / 1.2)\<rparr>"

text \<open>
  \<open>handleWheel\<close>: \<open>mouseX\<close> and \<open>mouseY\<close> are \<open>e.clientX - rect.left\<close> and
  \<open>e.clientY - rect.top\<close>, \<open>deltaY\<close> is \<open>e.deltaY\<close>.
\<close>

definition handleWheel :: "Transform \<Rightarrow> real \<Rightarrow> real \<Rightarrow> real \<Rightarrow> Transform" where
  "handleWheel t mouseX mouseY deltaY =
     (let canvasX = (mouseX - tx t) / scale t;
          canvasY = (mouseY - ty t) / scale t;
          delta = (if deltaY > 0 then 0.97 else 1.03);
          newScale = max 0.2 (min 3 (scale t * delta))
      in \<lparr>tx = mouseX - canvasX * newScale, ty = mouseY - canvasY * newScale, scale = newScale\<rparr>)"

text \<open>The logical canvas point under a screen position, \<open>(p - offset) / scale\<close>.\<close>

definition canvasPoint :: "Transform \<Rightarrow> real \<times> real \<Rightarrow> real \<times> real" where
  "canvasPoint t p = ((fst p - tx t) / scale t, (snd p - ty t) / scale t)"

section \<open>Execution run tracker: state\<close>

text \<open>
  The tracker state is the group of \<open>$state\<close> dictionaries of the component together
  with the module-level \<open>globalProcessedSet\<close>. \<open>purgeTimers\<close> holds the callbacks
  scheduled with \<open>setTimeout(..., 1000)\<close> that have not run yet, oldest first: each one
  is the run id and the \<open>executedNodes\<close> list it closes over. Each dictionary field
  holds the own entries of its object.
\<close>

record Tracker =
  inputValues :: "string \<rightharpoonup> (string \<rightharpoonup> string)"
  pendingRunIds :: "string \<rightharpoonup> string list"
  runIdToNodes :: "string \<rightharpoonup> string list"
  nodeResults :: "string \<rightharpoonup> GradioComponentData list list"
  selectedResultIndex :: "string \<rightharpoonup> int"
  globalProcessedSet :: "string set"
  purgeTimers :: "(string \<times> string list) list"

definition initialTracker :: Tracker where
  "initialTracker =
     \<lparr>inputValues = Map.empty, pendingRunIds = Map.empty,
      runIdToNodes = Map.empty, nodeResults = Map.empty, selectedResultIndex = Map.empty,
      globalProcessedSet = {}, purgeTimers = []\<rparr>"

text \<open>
  The own entry of pending run ids of a node, with a missing entry read as the empty list,
  and the badge count \<open>runningCounts[nodeName] = ids.length\<close>, which
  \<open>Object.entries\<close> gives for own entries only.
\<close>

definition pendingOf :: "Tracker \<Rightarrow> string \<Rightarrow> string list" where
  "pendingOf t n = (case pendingRunIds t n of None \<Rightarrow> [] | Some ids \<Rightarrow> ids)"

definition runningCounts :: "Tracker \<Rightarrow> string \<rightharpoonup> nat" where
  "runningCounts t n = map_option length (pendingRunIds t n)"

text \<open>\<open>nodeResults[nodeName]?.length || 0\<close>\<close>

definition getResultCount :: "Tracker \<Rightarrow> string \<Rightarrow> nat" where
  "getResultCount t nodeName =
     (case get (nodeResults t) nodeName of
        Own rs \<Rightarrow> length rs
      | Inherited len \<Rightarrow> (case len of None \<Rightarrow> 0 | Some l \<Rightarrow> l)
      | Absent \<Rightarrow> 0)"

section \<open>Execution run tracker: ancestors\<close>

definition replaceAll :: "char \<Rightarrow> char \<Rightarrow> string \<Rightarrow> string" where
  "replaceAll old new s = map (\<lambda>c. if c = old then new else c) s"

text \<open>\<open>current.replace(/ /g, '_').replace(/-/g, '_')\<close>\<close>

definition normalize :: "string \<Rightarrow> string" where
  "normalize current = replaceAll (CHR ''-'') (CHR ''_'') (replaceAll (CHR '' '') (CHR ''_'') current)"

text \<open>
  The body of the inner \<open>for (const edge of edges)\<close> loop of \<open>getAncestors\<close>. The state
  is the \<open>ancestors\<close> set, kept as the list of its elements in insertion order (the
  order \<open>Array.from\<close> returns), and the \<open>toVisit\<close> array kept as a stack with its
  last element first, so that \<open>push\<close> is \<open>#\<close> and \<open>pop\<close> takes the head.
\<close>

definition visitEdge ::
  "GraphNode list \<Rightarrow> string \<Rightarrow> GraphEdge \<Rightarrow> string list \<times> string list \<Rightarrow> string list \<times> string list"
where
  "visitEdge ns current edge st =
     (case st of (ancestors, toVisit) \<Rightarrow>
        if to_node edge = normalize current then
          (case find (\<lambda>n. node_id n = from_node edge) ns of
             None \<Rightarrow> st
           | Some sourceNode \<Rightarrow>
               if \<not> is_input_node sourceNode \<and> node_name sourceNode \<notin> set ancestors
               then (ancestors @ [node_name sourceNode], node_name sourceNode # toVisit)
               else st)
        else st)"

text \<open>The number of nodes whose name has not been collected yet: it bounds the loop.\<close>

definition uncollected :: "GraphNode list \<Rightarrow> string list \<Rightarrow> nat" where
  "uncollected ns ancestors = length (filter (\<lambda>n. node_name n \<notin> set ancestors) ns)"

lemma uncollected_append:
  assumes "src \<in> set ns" and "node_name src \<notin> set ancestors"
  shows "uncollected ns (ancestors @ [node_name src]) < uncollected ns ancestors"
proof -
  have "filter (\<lambda>n. node_name n \<notin> set (ancestors @ [node_name src])) ns =
        filter (\<lambda>n. node_name n \<noteq> node_name src)
          (filter (\<lambda>n. node_name n \<notin> set ancestors) ns)"
    by (induction ns) auto
  moreover have "src \<in> set (filter (\<lambda>n. node_name n \<notin> set ancestors) ns)"
    using assms by simp
  ultimately show ?thesis
    unfolding uncollected_def
    by (metis (mono_tags, lifting) length_filter_less)
qed

lemma visitEdge_progress:
  "visitEdge ns current edge st = st \<or>
   uncollected ns (fst (visitEdge ns current edge st)) < uncollected ns (fst st)"
proof (cases st)
  case (Pair ancestors toVisit)
  show ?thesis
  proof (cases "find (\<lambda>n. node_id n = from_node edge) ns")
    case None
    with Pair show ?thesis by (simp add: visitEdge_def)
  next
    case (Some src)
    then have "src \<in> set ns"
      by (auto simp: find_Some_iff)
    with Pair Some show ?thesis
      by (auto simp: visitEdge_def uncollected_append)
  qed
qed

lemma fold_visitEdge_progress:
  "fold (visitEdge ns current) es st = st \<or>
   uncollected ns (fst (fold (visitEdge ns current) es st)) < uncollected ns (fst st)"
proof (induction es arbitrary: st)
  case Nil
  show ?case by simp
next
  case (Cons e es)
  from Cons.IH [of "visitEdge ns current e st"] visitEdge_progress [of ns current e st]
  show ?case by auto
qed

text \<open>
  The \<open>while (toVisit.length > 0)\<close> loop. It ends because every pass either pops a name
  without collecting anything or collects the name of a node not collected before.
\<close>

function getAncestorsLoop ::
  "GraphNode list \<Rightarrow> GraphEdge list \<Rightarrow> string list \<Rightarrow> string list \<Rightarrow> string list"
where
  "getAncestorsLoop ns es ancestors [] = ancestors"
| "getAncestorsLoop ns es ancestors (current # toVisit) =
     (case fold (visitEdge ns current) es (ancestors, toVisit) of
        (ancestors', toVisit') \<Rightarrow> getAncestorsLoop ns es ancestors' toVisit')"
  by pat_completeness auto
termination
  apply (relation "(\<lambda>(ns, es, ancestors, toVisit). uncollected ns ancestors) <*mlex*>
                   measure (\<lambda>(ns, es, ancestors, toVisit). length toVisit)")
   apply (simp add: wf_mlex)
  subgoal for ns es ancestors current toVisit ancestors' toVisit'
    using fold_visitEdge_progress [of ns current es "(ancestors, toVisit)"]
    by (cases "fold (visitEdge ns current) es (ancestors, toVisit)") (auto simp: mlex_prod_def)
  done

definition getAncestors :: "GraphNode list \<Rightarrow> GraphEdge list \<Rightarrow> string \<Rightarrow> string list" where
  "getAncestors ns es nodeName = getAncestorsLoop ns es [] [nodeName]"

text \<open>
  The ancestor set of the specification, in the terms of the code. \<open>source\<close> is the
  name an edge contributes while \<open>current\<close> is visited: the edge must end at the
  normalised name of \<open>current\<close>, its \<open>from_node\<close> must be the id of a node (the first
  such node), and that node must not be an input node. \<open>feeds\<close> says that some edge
  contributes the name, and \<open>ancestor\<close> is what is reached from \<open>nodeName\<close> in one or
  more such steps.
\<close>

definition source :: "GraphNode list \<Rightarrow> string \<Rightarrow> GraphEdge \<Rightarrow> string option" where
  "source ns current edge =
     (if to_node edge = normalize current then
        (case find (\<lambda>n. node_id n = from_node edge) ns of
           None \<Rightarrow> None
         | Some sourceNode \<Rightarrow> if is_input_node sourceNode then None else Some (node_name sourceNode))
      else None)"

definition feeds :: "GraphNode list \<Rightarrow> GraphEdge list \<Rightarrow> string \<Rightarrow> string \<Rightarrow> bool" where
  "feeds ns es current a = (\<exists>edge \<in> set es. source ns current edge = Some a)"

inductive ancestor :: "GraphNode list \<Rightarrow> GraphEdge list \<Rightarrow> string \<Rightarrow> string \<Rightarrow> bool"
  for ns es nodeName
where
  direct: "feeds ns es nodeName a \<Longrightarrow> ancestor ns es nodeName a"
| further: "ancestor ns es nodeName c \<Longrightarrow> feeds ns es c a \<Longrightarrow> ancestor ns es nodeName a"

code_pred ancestor .

section \<open>Execution run tracker: triggering a run\<close>

text \<open>
  \<open>Date.now()\<close> is a natural number; the template literal renders it in decimal.
\<close>

definition digitChar :: "nat \<Rightarrow> char" where
  "digitChar d = ''0123456789'' ! d"

function decimal :: "nat \<Rightarrow> string" where
  "decimal n = (if n < 10 then [digitChar n] else decimal (n div 10) @ [digitChar (n mod 10)])"
  by pat_completeness auto
termination
  by (relation "measure id") auto

declare decimal.simps [simp del]

text \<open>
  \<open>`${nodeName}_${Date.now()}_${Math.random().toString(36).slice(2)}`\<close>: the clock
  reading and the random suffix, already rendered in base 36, are inputs.
\<close>

definition mintRunId :: "string \<Rightarrow> nat \<Rightarrow> string \<Rightarrow> string" where
  "mintRunId nodeName now rnd = nodeName @ ''_'' @ decimal now @ ''_'' @ rnd"

text \<open>
  \<open>!nodeResults[n] || nodeResults[n].length === 0\<close>. An inherited value is truthy, so
  the test then rests on its \<open>length\<close>.
\<close>

definition hasNoResult :: "Tracker \<Rightarrow> string \<Rightarrow> bool" where
  "hasNoResult t n =
     (case get (nodeResults t) n of
        Absent \<Rightarrow> True
      | Own rs \<Rightarrow> length rs = 0
      | Inherited len \<Rightarrow> len = Some 0)"

definition nodesToRun :: "Tracker \<Rightarrow> string list \<Rightarrow> string \<Rightarrow> string list" where
  "nodesToRun t ancestors nodeName = filter (hasNoResult t) (ancestors @ [nodeName])"

text \<open>
  The body of \<open>for (const nodeToRun of nodesToRun)\<close>. Where \<open>pendingRunIds[nodeToRun]\<close>
  is an inherited value the initialisation is skipped and the spread
  \<open>[...pendingRunIds[nodeToRun], runId]\<close> throws, since that value is not iterable.
\<close>

definition addPending :: "string \<Rightarrow> string \<Rightarrow> Tracker \<Rightarrow> error + Tracker" where
  "addPending runId nodeToRun t =
     (case get (pendingRunIds t) nodeToRun of
        Absent \<Rightarrow> Inr (t\<lparr>pendingRunIds := (pendingRunIds t)(nodeToRun \<mapsto> [] @ [runId])\<rparr>)
      | Own ids \<Rightarrow> Inr (t\<lparr>pendingRunIds := (pendingRunIds t)(nodeToRun \<mapsto> ids @ [runId])\<rparr>)
      | Inherited len \<Rightarrow> Inl TypeError)"

text \<open>
  The loop. An exception leaves it at once; what the earlier passes wrote stays written.
\<close>

fun addPendingLoop :: "string \<Rightarrow> string list \<Rightarrow> Tracker \<Rightarrow> Tracker \<times> error option" where
  "addPendingLoop runId [] t = (t, None)"
| "addPendingLoop runId (nodeToRun # rest) t =
     (case addPending runId nodeToRun t of
        Inl e \<Rightarrow> (t, Some e)
      | Inr t' \<Rightarrow> addPendingLoop runId rest t')"

text \<open>
  How the handler ends: it throws, or it returns. It never gets as far as
  \<open>gradio.dispatch\<close>: that call stands inside \<open>if (gradio.props.value)\<close> behind the
  object literal for \<open>newValue\<close>, whose entry \<open>item_list_values: { ...itemListValues }\<close>
  reads an identifier that is declared nowhere, so building the literal throws.
\<close>

datatype outcome = Threw error | Returned

text \<open>
  \<open>handleRunToNode\<close> reads the derived \<open>nodes\<close> and \<open>edges\<close> and the held value
  \<open>gradio.props.value\<close>. It yields the new tracker state and how it ended.
\<close>

definition handleRunToNode ::
  "GraphNode list \<Rightarrow> GraphEdge list \<Rightarrow> CanvasData option \<Rightarrow> Tracker \<Rightarrow>
     string \<Rightarrow> nat \<Rightarrow> string \<Rightarrow> Tracker \<times> outcome"
where
  "handleRunToNode ns es v t nodeName now rnd =
     (let runId = mintRunId nodeName now rnd;
          ancestors = getAncestors ns es nodeName;
          toRun = nodesToRun t ancestors nodeName
      in (case addPendingLoop runId toRun t of
            (t1, Some e) \<Rightarrow> (t1, Threw e)
          | (t1, None) \<Rightarrow>
              (let t2 = t1\<lparr>runIdToNodes := (runIdToNodes t1)(runId \<mapsto> toRun)\<rparr>
               in (t2, (case v of None \<Rightarrow> Returned | Some d \<Rightarrow> Threw ReferenceError)))))"

section \<open>Execution run tracker: completion ingestion\<close>

text \<open>\<open>`${runId}:${completedNode}`\<close>\<close>

definition completionKey :: "string \<Rightarrow> string \<Rightarrow> string" where
  "completionKey runId n = runId @ '':'' @ n"

text \<open>
  The steps of the \<open>$effect\<close> after the key has been added to the set. Each one throws
  where the dictionary read yields an inherited value: that value is truthy and has no
  \<open>filter\<close> or \<open>every\<close> method and is not iterable.
\<close>

definition removePending :: "string \<Rightarrow> string \<Rightarrow> Tracker \<Rightarrow> error + Tracker" where
  "removePending runId completedNode t =
     (case get (pendingRunIds t) completedNode of
        Absent \<Rightarrow> Inr t
      | Own ids \<Rightarrow>
          Inr (t\<lparr>pendingRunIds := (pendingRunIds t)(completedNode \<mapsto> filter (\<lambda>id. id \<noteq> runId) ids)\<rparr>)
      | Inherited len \<Rightarrow> Inl TypeError)"

definition retireRun :: "string \<Rightarrow> Tracker \<Rightarrow> error + Tracker" where
  "retireRun runId t =
     (case get (runIdToNodes t) runId of
        Absent \<Rightarrow> Inr t
      | Own executedNodes \<Rightarrow>
          Inr (if list_all (\<lambda>n. completionKey runId n \<in> globalProcessedSet t) executedNodes
               then t\<lparr>runIdToNodes := (runIdToNodes t)(runId := None),
                      purgeTimers := purgeTimers t @ [(runId, executedNodes)]\<rparr>
               else t)
      | Inherited len \<Rightarrow> Inl TypeError)"

definition appendResult :: "GraphNode list option \<Rightarrow> string \<Rightarrow> Tracker \<Rightarrow> error + Tracker" where
  "appendResult dataNodes completedNode t =
     (case dataNodes of
        None \<Rightarrow> Inr t
      | Some ns \<Rightarrow>
          (case find (\<lambda>n. node_name n = completedNode) ns of
             None \<Rightarrow> Inr t
           | Some node \<Rightarrow>
               (case output_components node of
                  None \<Rightarrow> Inr t
                | Some comps \<Rightarrow>
                    if length comps > 0 \<and> list_ex (\<lambda>c. comp_value c \<noteq> None) comps
                    then
                      (case get (nodeResults t) completedNode of
                         Inherited len \<Rightarrow> Inl TypeError
                       | found \<Rightarrow>
                           (let resultSnapshot = comps;
                                results = (case found of Own rs \<Rightarrow> rs | _ \<Rightarrow> []) @ [resultSnapshot]
                            in Inr (t\<lparr>nodeResults := (nodeResults t)(completedNode \<mapsto> results),
                                     selectedResultIndex :=
                                       (selectedResultIndex t)(completedNode \<mapsto> int (length results) - 1)\<rparr>)))
                    else Inr t)))"

text \<open>
  The \<open>$effect\<close> that processes the held value. A missing or empty \<open>run_id\<close> or
  \<open>completed_node\<close> is falsy and ends it at once. The body stands in a \<open>try\<close> whose
  \<open>catch\<close> only logs: an exception ends the effect and keeps what was written before it.
\<close>

definition ingest :: "Tracker \<Rightarrow> CanvasData option \<Rightarrow> Tracker" where
  "ingest t v =
     (case v of
        None \<Rightarrow> t
      | Some data \<Rightarrow>
          (case (run_id data, completed_node data) of
             (Some runId, Some completedNode) \<Rightarrow>
               if runId = [] \<or> completedNode = [] then t
               else
                 (let key = completionKey runId completedNode in
                  if key \<in> globalProcessedSet t then t
                  else
                    (let t0 = t\<lparr>globalProcessedSet := insert key (globalProcessedSet t)\<rparr> in
                     case removePending runId completedNode t0 of
                       Inl e \<Rightarrow> t0
                     | Inr t1 \<Rightarrow>
                         (case retireRun runId t1 of
                            Inl e \<Rightarrow> t1
                          | Inr t2 \<Rightarrow>
                              (case appendResult (cd_nodes data) completedNode t2 of
                                 Inl e \<Rightarrow> t2
                               | Inr t3 \<Rightarrow> t3))))
           | _ \<Rightarrow> t))"

text \<open>
  The oldest scheduled callback runs: it deletes the keys of its run from the set. All
  callbacks have the same delay, so they run in the order they were scheduled.
\<close>

definition fireTimer :: "Tracker \<Rightarrow> Tracker" where
  "fireTimer t =
     (case purgeTimers t of
        [] \<Rightarrow> t
      | (runId, executedNodes) # rest \<Rightarrow>
          t\<lparr>globalProcessedSet := globalProcessedSet t - set (map (completionKey runId) executedNodes),
            purgeTimers := rest\<rparr>)"

text \<open>
  The guard at the head of the effect, on its own: the run id and the completed node of the
  held value when both are truthy.
\<close>

definition notification :: "CanvasData option \<Rightarrow> (string \<times> string) option" where
  "notification v =
     (case v of
        None \<Rightarrow> None
      | Some data \<Rightarrow>
          (case (run_id data, completed_node data) of
             (Some runId, Some completedNode) \<Rightarrow>
               if runId = [] \<or> completedNode = [] then None else Some (runId, completedNode)
           | _ \<Rightarrow> None))"

text \<open>
  The test the effect makes before it appends a snapshot: the value lists a node of that
  name whose output components are not empty and hold a value that is not null.
\<close>

definition hasResult :: "GraphNode list option \<Rightarrow> string \<Rightarrow> bool" where
  "hasResult dataNodes completedNode =
     (case dataNodes of
        None \<Rightarrow> False
      | Some ns \<Rightarrow>
          (case find (\<lambda>n. node_name n = completedNode) ns of
             None \<Rightarrow> False
           | Some node \<Rightarrow>
               (case output_components node of
                  None \<Rightarrow> False
                | Some comps \<Rightarrow> length comps > 0 \<and> list_ex (\<lambda>c. comp_value c \<noteq> None) comps)))"

section \<open>Layout and fit to content\<close>

definition NODE_WIDTH :: real where "NODE_WIDTH = 220"
definition HEADER_HEIGHT :: real where "HEADER_HEIGHT = 36"
definition HEADER_BORDER :: real where "HEADER_BORDER = 1"
definition BODY_PADDING_TOP :: real where "BODY_PADDING_TOP = 8"
definition PORT_ROW_HEIGHT :: real where "PORT_ROW_HEIGHT = 22"
definition EMBEDDED_COMPONENT_HEIGHT :: real where "EMBEDDED_COMPONENT_HEIGHT = 60"

text \<open>\<open>node.output_components || []\<close>\<close>

definition orEmpty :: "'a list option \<Rightarrow> 'a list" where
  "orEmpty xs = (case xs of None \<Rightarrow> [] | Some ys \<Rightarrow> ys)"

text \<open>
  \<open>getSelectedResults\<close>. An inherited value in place of the results has no element
  under any index, and an inherited value in place of the index is no index of an array,
  so both end in \<open>node.output_components || []\<close>.
\<close>

definition getSelectedResults :: "Tracker \<Rightarrow> GraphNode \<Rightarrow> GradioComponentData list" where
  "getSelectedResults t node =
     (case get (nodeResults t) (node_name node) of
        Own results \<Rightarrow>
          if length results = 0 then orEmpty (output_components node)
          else
            (case get (selectedResultIndex t) (node_name node) of
               Inherited len \<Rightarrow> orEmpty (output_components node)
             | found \<Rightarrow>
                 (let idx = (case found of Own i \<Rightarrow> i | _ \<Rightarrow> int (length results) - 1)
                  in if 0 \<le> idx \<and> idx < int (length results) then results ! nat idx
                     else orEmpty (output_components node)))
      | _ \<Rightarrow> orEmpty (output_components node))"

definition getComponentsToRender :: "Tracker \<Rightarrow> GraphNode \<Rightarrow> GradioComponentData list" where
  "getComponentsToRender t node =
     (case input_components node of
        None \<Rightarrow> getSelectedResults t node
      | Some comps \<Rightarrow>
          if is_input_node node \<and> length comps \<noteq> 0 then comps else getSelectedResults t node)"

definition getNodeHeight :: "Tracker \<Rightarrow> GraphNode \<Rightarrow> real" where
  "getNodeHeight t node =
     (let portRows = max (max (length (node_inputs node)) (length (node_outputs node))) 1;
          componentsToRender = getComponentsToRender t node;
          embeddedHeight = real (length componentsToRender) * EMBEDDED_COMPONENT_HEIGHT
      in HEADER_HEIGHT + HEADER_BORDER + BODY_PADDING_TOP + (real portRows * PORT_ROW_HEIGHT)
           + embeddedHeight + BODY_PADDING_TOP)"

text \<open>
  The body of the bounding-box loop of \<open>zoomToFit\<close> on \<open>(minX, minY, maxX, maxY)\<close>.
  The loop starts from \<open>(Infinity, Infinity, -Infinity, -Infinity)\<close>, so its first pass
  yields the rectangle of the first node; \<open>nodeBounds\<close> starts from there.
\<close>

definition boundsStep ::
  "Tracker \<Rightarrow> GraphNode \<Rightarrow> real \<times> real \<times> real \<times> real \<Rightarrow> real \<times> real \<times> real \<times> real"
where
  "boundsStep t node b =
     (case b of (minX, minY, maxX, maxY) \<Rightarrow>
        (let nodeHeight = getNodeHeight t node
         in (min minX (node_x node), min minY (node_y node),
             max maxX (node_x node + NODE_WIDTH), max maxY (node_y node + nodeHeight))))"

definition nodeBounds :: "Tracker \<Rightarrow> GraphNode list \<Rightarrow> (real \<times> real \<times> real \<times> real) option" where
  "nodeBounds t ns =
     (case ns of
        [] \<Rightarrow> None
      | first # rest \<Rightarrow>
          Some (fold (boundsStep t) rest
                  (node_x first, node_y first, node_x first + NODE_WIDTH,
                   node_y first + getNodeHeight t first)))"

text \<open>
  \<open>canvasEl\<close> is the size \<open>(width, height)\<close> of the bounding rectangle of the canvas
  element, or \<open>None\<close> while the element is not bound.
\<close>

definition zoomToFit ::
  "Tracker \<Rightarrow> GraphNode list \<Rightarrow> (real \<times> real) option \<Rightarrow> Transform \<Rightarrow> Transform"
where
  "zoomToFit t ns canvasEl transform =
     (if length ns = 0 then transform
      else
        (case canvasEl of
           None \<Rightarrow> transform
         | Some (canvasWidth, canvasHeight) \<Rightarrow>
             (case nodeBounds t ns of
                None \<Rightarrow> transform
              | Some (minX, minY, maxX, maxY) \<Rightarrow>
                  (let padding = 40;
                       contentWidth = maxX - minX;
                       contentHeight = maxY - minY;
                       scaleX = (canvasWidth - padding * 2) / contentWidth;
                       scaleY = (canvasHeight - padding * 2) / contentHeight;
                       newScale = min (min scaleX scaleY) 1.5;
                       centerX = (minX + maxX) / 2;
                       centerY = (minY + maxY) / 2;
                       newX = canvasWidth / 2 - centerX * newScale;
                       newY = canvasHeight / 2 - centerY * newScale
                   in \<lparr>tx = newX, ty = newY, scale = max 0.2 newScale\<rparr>))))"

text \<open>
  The union bounding box of the node rectangles in the words of the specification: each
  rectangle is \<open>NODE_WIDTH\<close> wide and as high as \<open>getNodeHeight\<close> says.
\<close>

definition contentWidth :: "Tracker \<Rightarrow> GraphNode list \<Rightarrow> real" where
  "contentWidth t ns = Max (set (map (\<lambda>n. node_x n + NODE_WIDTH) ns)) - Min (set (map node_x ns))"

definition contentHeight :: "Tracker \<Rightarrow> GraphNode list \<Rightarrow> real" where
  "contentHeight t ns =
     Max (set (map (\<lambda>n. node_y n + getNodeHeight t n) ns)) - Min (set (map node_y ns))"

text \<open>\<open>handleMouseMove\<close>, with \<open>isPanning\<close> and \<open>startPan\<close> as set by \<open>handleMouseDown\<close>.\<close>

definition handleMouseMove :: "bool \<Rightarrow> real \<times> real \<Rightarrow> Transform \<Rightarrow> real \<Rightarrow> real \<Rightarrow> Transform" where
  "handleMouseMove isPanning startPan t clientX clientY =
     (if isPanning then t\<lparr>tx := clientX - fst startPan, ty := clientY - snd startPan\<rparr> else t)"

section \<open>A sample graph\<close>

text \<open>
  The graph \<open>A (input) \<rightarrow> B \<rightarrow> C\<close>, each node without ports or components, and a
  value carrying it.
\<close>

definition sampleNode :: "string \<Rightarrow> string \<Rightarrow> bool \<Rightarrow> GraphNode" where
  "sampleNode i n inp =
     \<lparr>node_id = i, node_name = n, node_inputs = [], node_outputs = [],
      input_components = None, output_components = None, node_x = 0, node_y = 0,
      is_input_node = inp\<rparr>"

definition sampleEdge :: "string \<Rightarrow> string \<Rightarrow> GraphEdge" where
  "sampleEdge a b = \<lparr>edge_id = a @ ''-'' @ b, from_node = a, to_node = b\<rparr>"

definition sampleNodes :: "GraphNode list" where
  "sampleNodes = [sampleNode ''A'' ''A'' True, sampleNode ''B'' ''B'' False, sampleNode ''C'' ''C'' False]"

definition sampleEdges :: "GraphEdge list" where
  "sampleEdges = [sampleEdge ''A'' ''B'', sampleEdge ''B'' ''C'']"

definition sampleValue :: "GraphNode list \<Rightarrow> GraphEdge list \<Rightarrow> CanvasData" where
  "sampleValue ns es =
     \<lparr>cd_nodes = Some ns, cd_edges = Some es, cd_inputs = None,
      run_to_node = None, run_id = None, completed_node = None\<rparr>"

text \<open>A node with one output component that holds a value, and a completion notification.\<close>

definition resultNode :: "string \<Rightarrow> GraphNode" where
  "resultNode n =
     (sampleNode n n False)
       \<lparr>output_components := Some [\<lparr>component = ''textbox'', comp_port_name = ''out'', comp_value = Some ''done''\<rparr>]\<rparr>"

definition completion :: "string \<Rightarrow> string \<Rightarrow> GraphNode list \<Rightarrow> CanvasData" where
  "completion runId n ns = (sampleValue ns [])\<lparr>run_id := Some runId, completed_node := Some n\<rparr>"

section \<open>Staleness guard\<close>

lemma derivedBy_nonempty: "xs \<noteq> [] \<Longrightarrow> derivedBy lastValid (Some xs) = (xs, xs)"
  by (simp add: derivedBy_def)

lemma derivedBy_empty: "emptyOrAbsent new \<Longrightarrow> derivedBy lastValid new = (lastValid, lastValid)"
  by (auto simp: derivedBy_def emptyOrAbsent_def split: option.splits)

lemma receive_nodes_nonempty:
  "valueNodes v = Some ns \<Longrightarrow> ns \<noteq> [] \<Longrightarrow>
     nodes (receive g v) = ns \<and> lastValidNodes (receive g v) = ns"
  by (simp add: receive_def derivedBy_nonempty split: prod.splits)

lemma receive_edges_nonempty:
  "valueEdges v = Some es \<Longrightarrow> es \<noteq> [] \<Longrightarrow>
     edges (receive g v) = es \<and> lastValidEdges (receive g v) = es"
  by (simp add: receive_def derivedBy_nonempty split: prod.splits)

lemma receive_nodes_empty:
  "emptyOrAbsent (valueNodes v) \<Longrightarrow>
     nodes (receive g v) = lastValidNodes g \<and> lastValidNodes (receive g v) = lastValidNodes g"
  by (simp add: receive_def derivedBy_empty split: prod.splits)

lemma receive_edges_empty:
  "emptyOrAbsent (valueEdges v) \<Longrightarrow>
     edges (receive g v) = lastValidEdges g \<and> lastValidEdges (receive g v) = lastValidEdges g"
  by (simp add: receive_def derivedBy_empty split: prod.splits)

text \<open>
  Claim C5. After any sequence of inbound values \<open>earlier\<close>, a value \<open>v1\<close> whose node
  list \<open>ns\<close> is non-empty replaces the held node list and becomes the last-known-good
  one, and a following value \<open>v2\<close> whose node list is empty or absent leaves the
  effective node list equal to \<open>ns\<close>. The same holds for the edge list.
\<close>

theorem staleness_guard:
  "(valueNodes v1 = Some ns \<and> ns \<noteq> [] \<longrightarrow>
      nodes (receive (foldl receive initialGraph earlier) v1) = ns \<and>
      lastValidNodes (receive (foldl receive initialGraph earlier) v1) = ns \<and>
      (emptyOrAbsent (valueNodes v2) \<longrightarrow>
         nodes (receive (receive (foldl receive initialGraph earlier) v1) v2) = ns)) \<and>
   (valueEdges v1 = Some es \<and> es \<noteq> [] \<longrightarrow>
      edges (receive (foldl receive initialGraph earlier) v1) = es \<and>
      lastValidEdges (receive (foldl receive initialGraph earlier) v1) = es \<and>
      (emptyOrAbsent (valueEdges v2) \<longrightarrow>
         edges (receive (receive (foldl receive initialGraph earlier) v1) v2) = es))"
  by (simp add: receive_nodes_nonempty receive_edges_nonempty receive_nodes_empty
      receive_edges_empty)

theorem staleness_guard_witness:
  "valueNodes (Some (sampleValue sampleNodes sampleEdges)) = Some sampleNodes \<and> sampleNodes \<noteq> [] \<and>
   emptyOrAbsent (valueNodes (Some (sampleValue [] []))) \<and>
   nodes (receive (receive (foldl receive initialGraph []) (Some (sampleValue sampleNodes sampleEdges)))
            (Some (sampleValue [] []))) = sampleNodes \<and>
   valueEdges (Some (sampleValue sampleNodes sampleEdges)) = Some sampleEdges \<and> sampleEdges \<noteq> [] \<and>
   emptyOrAbsent (valueEdges None) \<and>
   edges (receive (receive (foldl receive initialGraph []) (Some (sampleValue sampleNodes sampleEdges)))
            None) = sampleEdges"
proof -
  have n: "valueNodes (Some (sampleValue sampleNodes sampleEdges)) = Some sampleNodes \<and> sampleNodes \<noteq> []"
    by (simp add: valueNodes_def sampleValue_def sampleNodes_def)
  have e: "valueEdges (Some (sampleValue sampleNodes sampleEdges)) = Some sampleEdges \<and> sampleEdges \<noteq> []"
    by (simp add: valueEdges_def sampleValue_def sampleEdges_def)
  have n2: "emptyOrAbsent (valueNodes (Some (sampleValue [] [])))"
    by (simp add: emptyOrAbsent_def valueNodes_def sampleValue_def)
  have e2: "emptyOrAbsent (valueEdges None)"
    by (simp add: emptyOrAbsent_def valueEdges_def)
  from staleness_guard [of "Some (sampleValue sampleNodes sampleEdges)" sampleNodes "[]"
      "Some (sampleValue [] [])" sampleEdges] n n2
  have r1: "nodes (receive (receive (foldl receive initialGraph [])
             (Some (sampleValue sampleNodes sampleEdges))) (Some (sampleValue [] []))) = sampleNodes"
    by blast
  from staleness_guard [of "Some (sampleValue sampleNodes sampleEdges)" sampleNodes "[]"
      None sampleEdges] e e2
  have r2: "edges (receive (receive (foldl receive initialGraph [])
             (Some (sampleValue sampleNodes sampleEdges))) None) = sampleEdges"
    by blast
  from n e n2 e2 r1 r2 show ?thesis by blast
qed

section \<open>Viewport\<close>

lemma handleWheel_scale:
  "scale (handleWheel t mouseX mouseY deltaY) =
     max 0.2 (min 3 (scale t * (if deltaY > 0 then 0.97 else 1.03)))"
  by (simp add: handleWheel_def Let_def)

lemma handleWheel_scale_pos: "0 < scale (handleWheel t mouseX mouseY deltaY)"
  unfolding handleWheel_scale by (simp add: less_max_iff_disj)

lemma fold_boundsStep:
  "fold (boundsStep t) rest (a, b, c, d) =
     (fold min (map node_x rest) a, fold min (map node_y rest) b,
      fold max (map (\<lambda>n. node_x n + NODE_WIDTH) rest) c,
      fold max (map (\<lambda>n. node_y n + getNodeHeight t n) rest) d)"
  by (induction rest arbitrary: a b c d) (simp_all add: boundsStep_def Let_def min.commute max.commute)

lemma nodeBounds_box:
  assumes "ns \<noteq> []"
  shows "nodeBounds t ns =
     Some (Min (set (map node_x ns)), Min (set (map node_y ns)),
           Max (set (map (\<lambda>n. node_x n + NODE_WIDTH) ns)),
           Max (set (map (\<lambda>n. node_y n + getNodeHeight t n) ns)))"
proof -
  from assms obtain n rest where ns: "ns = n # rest"
    by (cases ns) auto
  show ?thesis
    unfolding ns nodeBounds_def
    by (simp add: fold_boundsStep Min.set_eq_fold [symmetric] Max.set_eq_fold [symmetric])
qed

lemma zoomToFit_scale:
  assumes "ns \<noteq> []"
  shows "scale (zoomToFit t ns (Some (viewportWidth, viewportHeight)) transform) =
     max 0.2 (min (min ((viewportWidth - 80) / contentWidth t ns)
                       ((viewportHeight - 80) / contentHeight t ns)) 1.5)"
  using assms
  by (simp add: zoomToFit_def nodeBounds_box contentWidth_def contentHeight_def Let_def)

lemma zoomToFit_noop:
  "zoomToFit t [] canvasEl transform = transform"
  "zoomToFit t ns None transform = transform"
  by (simp_all add: zoomToFit_def)

text \<open>The content box of a non-empty node list is never degenerate, so both divisions are proper.\<close>

lemma content_positive:
  assumes "ns \<noteq> []"
  shows "220 \<le> contentWidth t ns" and "75 \<le> contentHeight t ns"
proof -
  have fin: "finite (set (map node_x ns))" "set (map node_x ns) \<noteq> {}"
    "finite (set (map node_y ns))" "set (map node_y ns) \<noteq> {}"
    using assms by simp_all
  from Min_in [OF fin(1,2)] obtain n where n: "n \<in> set ns" "node_x n = Min (set (map node_x ns))"
    by auto
  from n(1) have "node_x n + NODE_WIDTH \<le> Max (set (map (\<lambda>n. node_x n + NODE_WIDTH) ns))"
    by (intro Max_ge) auto
  with n show "220 \<le> contentWidth t ns"
    by (simp add: contentWidth_def NODE_WIDTH_def)
  from Min_in [OF fin(3,4)] obtain m where m: "m \<in> set ns" "node_y m = Min (set (map node_y ns))"
    by auto
  from m(1) have "node_y m + getNodeHeight t m \<le> Max (set (map (\<lambda>n. node_y n + getNodeHeight t n) ns))"
    by (intro Max_ge) auto
  moreover have "75 \<le> getNodeHeight t m"
    by (simp add: getNodeHeight_def Let_def HEADER_HEIGHT_def HEADER_BORDER_def
        BODY_PADDING_TOP_def PORT_ROW_HEIGHT_def EMBEDDED_COMPONENT_HEIGHT_def)
  ultimately show "75 \<le> contentHeight t ns"
    using m by (simp add: contentHeight_def)
qed

lemma sample_height: "getNodeHeight initialTracker (sampleNode i n inp) = 75"
  by (simp add: getNodeHeight_def getComponentsToRender_def getSelectedResults_def get_def
      initialTracker_def sampleNode_def orEmpty_def HEADER_HEIGHT_def HEADER_BORDER_def
      BODY_PADDING_TOP_def PORT_ROW_HEIGHT_def EMBEDDED_COMPONENT_HEIGHT_def Let_def
      split: option.splits)

lemma sample_content:
  "contentWidth initialTracker [sampleNode i n inp] = 220"
  "contentHeight initialTracker [sampleNode i n inp] = 75"
  by (simp_all add: contentWidth_def contentHeight_def sample_height NODE_WIDTH_def)

text \<open>
  Claim C6. For a transform whose scale lies in \<open>[0.2, 3]\<close>, a pointer position \<open>p\<close> and
  any wheel event (factor 0.97 for \<open>deltaY > 0\<close>, 1.03 otherwise), the logical canvas
  point under \<open>p\<close> is the same before and after \<open>handleWheel\<close>, also where the new scale
  is clamped. Numbers are real, so the equality is exact.
\<close>

theorem zoom_at_pointer:
  assumes "0.2 \<le> scale t" and "scale t \<le> 3"
  shows "canvasPoint (handleWheel t (fst p) (snd p) deltaY) p = canvasPoint t p"
proof -
  have pos: "0 < max 0.2 (min 3 (scale t * (if deltaY > 0 then 0.97 else 1.03)))"
    by (simp add: less_max_iff_disj)
  from assms have "scale t \<noteq> 0" by simp
  with pos show ?thesis
    by (simp add: canvasPoint_def handleWheel_def Let_def)
qed

theorem zoom_at_pointer_witness:
  "(0.2::real) \<le> scale \<lparr>tx = 10, ty = 20, scale = 3\<rparr> \<and>
   scale \<lparr>tx = 10, ty = 20, scale = 3\<rparr> \<le> 3 \<and>
   scale (handleWheel \<lparr>tx = 10, ty = 20, scale = 3\<rparr> 100 50 (-1)) = 3 \<and>
   canvasPoint (handleWheel \<lparr>tx = 10, ty = 20, scale = 3\<rparr> 100 50 (-1)) (100, 50) = (30, 10)"
  using zoom_at_pointer [of "\<lparr>tx = 10, ty = 20, scale = 3\<rparr>" "(100, 50)" "-1"]
  by (simp add: canvasPoint_def handleWheel_scale)

text \<open>
  Claim C7. If the scale lies in \<open>[0.2, 3]\<close> before, it lies there after the zoom-in
  button, the zoom-out button, a wheel zoom and fit-to-content (and after a pan, which
  leaves it alone); the initial scale 1 lies in the interval.
\<close>

theorem scale_clamping:
  assumes "0.2 \<le> scale t" and "scale t \<le> 3"
  shows "scale initialTransform \<in> {0.2..3} \<and>
         scale (zoomIn t) \<in> {0.2..3} \<and>
         scale (zoomOut t) \<in> {0.2..3} \<and>
         scale (handleWheel t mouseX mouseY deltaY) \<in> {0.2..3} \<and>
         scale (zoomToFit tracker ns canvasEl t) \<in> {0.2..3} \<and>
         scale (handleMouseMove isPanning startPan t clientX clientY) \<in> {0.2..3}"
proof -
  have "scale initialTransform \<in> {0.2..3}"
    by (simp add: initialTransform_def)
  moreover from assms have "scale (zoomIn t) \<in> {0.2..3}"
    by (auto simp: zoomIn_def min_def)
  moreover from assms have "scale (zoomOut t) \<in> {0.2..3}"
    by (auto simp: zoomOut_def max_def)
  moreover have "scale (handleWheel t mouseX mouseY deltaY) \<in> {0.2..3}"
    unfolding handleWheel_scale by (simp add: le_max_iff_disj min_le_iff_disj)
  moreover have "scale (zoomToFit tracker ns canvasEl t) \<in> {0.2..3}"
  proof (cases "ns = [] \<or> canvasEl = None")
    case True
    with assms show ?thesis by (auto simp: zoomToFit_noop)
  next
    case False
    then obtain w h where c: "canvasEl = Some (w, h)" and ns: "ns \<noteq> []"
      by auto
    show ?thesis
      unfolding c zoomToFit_scale [OF ns] by (simp add: le_max_iff_disj min_le_iff_disj)
  qed
  moreover from assms have "scale (handleMouseMove isPanning startPan t clientX clientY) \<in> {0.2..3}"
    by (simp add: handleMouseMove_def)
  ultimately show ?thesis by blast
qed

theorem scale_clamping_witness:
  "(0.2::real) \<le> scale initialTransform \<and> scale initialTransform \<le> 3 \<and>
   scale (zoomIn initialTransform) \<in> {0.2..3} \<and>
   scale (zoomOut initialTransform) \<in> {0.2..3} \<and>
   scale (handleWheel initialTransform 100 50 1) \<in> {0.2..3} \<and>
   scale (zoomToFit initialTracker sampleNodes (Some (440, 150)) initialTransform) \<in> {0.2..3}"
proof -
  have h: "(0.2::real) \<le> scale initialTransform" "scale initialTransform \<le> 3"
    by (simp_all add: initialTransform_def)
  from scale_clamping [OF h, of 100 50 1 initialTracker sampleNodes "Some (440, 150)"] h
  show ?thesis by blast
qed

text \<open>
  Claim C9 as stated: the fit scale would be
  \<open>max 0.2 (min (viewportWidth / contentWidth) (viewportHeight / contentHeight) 1.5)\<close>.
  For one node of height 75 at the origin in a viewport of 440 by 150 that is 1.5, but
  \<open>zoomToFit\<close> first takes a padding of 40 off every side of the viewport and yields
  \<open>14 / 15\<close>.
\<close>

theorem fit_scale_counterexample:
  "scale (zoomToFit initialTracker [sampleNode ''A'' ''A'' True] (Some (440, 150)) initialTransform)
     \<noteq> max 0.2 (min (min (440 / contentWidth initialTracker [sampleNode ''A'' ''A'' True])
                         (150 / contentHeight initialTracker [sampleNode ''A'' ''A'' True])) 1.5)"
  by (simp add: zoomToFit_scale sample_content)

text \<open>
  Claim C9, amended. For a non-empty node list and a measured canvas of size
  \<open>(viewportWidth, viewportHeight)\<close>, \<open>zoomToFit\<close> sets the scale to
  \<open>min ((viewportWidth - 80) / contentWidth) ((viewportHeight - 80) / contentHeight) 1.5\<close>,
  raised to at least 0.2, where the content box is the union of the node rectangles; with
  no nodes or no measured canvas element it leaves the transform as it is.
\<close>

theorem fit_scale:
  "(ns \<noteq> [] \<longrightarrow>
      scale (zoomToFit t ns (Some (viewportWidth, viewportHeight)) transform) =
        max 0.2 (min (min ((viewportWidth - 80) / contentWidth t ns)
                          ((viewportHeight - 80) / contentHeight t ns)) 1.5)) \<and>
   zoomToFit t [] canvasEl transform = transform \<and>
   zoomToFit t ns None transform = transform"
  by (simp add: zoomToFit_scale zoomToFit_noop)

theorem fit_scale_witness:
  "[sampleNode ''A'' ''A'' True] \<noteq> [] \<and>
   scale (zoomToFit initialTracker [sampleNode ''A'' ''A'' True] (Some (440, 150)) initialTransform)
     = 14 / 15"
  using fit_scale [of "[sampleNode ''A'' ''A'' True]" initialTracker 440 150 initialTransform]
  by (simp add: sample_content)

section \<open>Ancestors\<close>

lemma visitEdge_source:
  "visitEdge ns current edge (ancestors, toVisit) =
     (case source ns current edge of
        None \<Rightarrow> (ancestors, toVisit)
      | Some a \<Rightarrow> if a \<notin> set ancestors then (ancestors @ [a], a # toVisit) else (ancestors, toVisit))"
  by (simp add: visitEdge_def source_def split: option.splits)

lemma feeds_Nil [simp]: "\<not> feeds ns [] current a"
  by (simp add: feeds_def)

lemma feeds_Cons: "feeds ns (e # es) current a \<longleftrightarrow> source ns current e = Some a \<or> feeds ns es current a"
  by (auto simp: feeds_def)

lemma fold_visitEdge_sets:
  "fold (visitEdge ns current) es (ancestors, toVisit) = (ancestors', toVisit') \<Longrightarrow>
     set ancestors' = set ancestors \<union> {a. feeds ns es current a} \<and>
     set toVisit' = set toVisit \<union> ({a. feeds ns es current a} - set ancestors) \<and>
     (distinct ancestors \<longrightarrow> distinct ancestors')"
proof (induction es arbitrary: ancestors toVisit)
  case Nil
  then show ?case by simp
next
  case (Cons e es)
  obtain a1 t1 where v: "visitEdge ns current e (ancestors, toVisit) = (a1, t1)"
    by (cases "visitEdge ns current e (ancestors, toVisit)")
  have a1: "set a1 = set ancestors \<union> {a. source ns current e = Some a}"
    and t1: "set t1 = set toVisit \<union> ({a. source ns current e = Some a} - set ancestors)"
    and d1: "distinct ancestors \<longrightarrow> distinct a1"
    using v by (auto simp: visitEdge_source split: option.splits if_splits)
  from Cons.prems have "fold (visitEdge ns current) es (a1, t1) = (ancestors', toVisit')"
    by (simp add: v)
  from Cons.IH [OF this] a1 t1 d1 show ?case
    by (auto simp: feeds_Cons)
qed

lemma ancestor_closed:
  assumes "\<forall>c \<in> insert nodeName A. \<forall>a. feeds ns es c a \<longrightarrow> a \<in> A"
    and "ancestor ns es nodeName a"
  shows "a \<in> A"
  using assms(2,1) by (induction rule: ancestor.induct) auto

lemma getAncestorsLoop_correct:
  assumes "set ancestors \<subseteq> {a. ancestor ns es nodeName a}"
    and "set toVisit \<subseteq> insert nodeName (set ancestors)"
    and "\<forall>c \<in> insert nodeName (set ancestors) - set toVisit. \<forall>a. feeds ns es c a \<longrightarrow> a \<in> set ancestors"
    and "distinct ancestors"
  shows "set (getAncestorsLoop ns es ancestors toVisit) = {a. ancestor ns es nodeName a} \<and>
         distinct (getAncestorsLoop ns es ancestors toVisit)"
  using assms
proof (induction ns es ancestors toVisit rule: getAncestorsLoop.induct)
  case (1 ns es ancestors)
  from "1.prems"(3) have "\<forall>c \<in> insert nodeName (set ancestors). \<forall>a. feeds ns es c a \<longrightarrow> a \<in> set ancestors"
    by simp
  then have "\<And>a. ancestor ns es nodeName a \<Longrightarrow> a \<in> set ancestors"
    by (rule ancestor_closed)
  with "1.prems"(1,4) show ?case by auto
next
  case (2 ns es ancestors current toVisit)
  obtain ancestors' toVisit' where
    f: "fold (visitEdge ns current) es (ancestors, toVisit) = (ancestors', toVisit')"
    by (cases "fold (visitEdge ns current) es (ancestors, toVisit)")
  from fold_visitEdge_sets [OF f]
  have s1: "set ancestors' = set ancestors \<union> {a. feeds ns es current a}"
    and s2: "set toVisit' = set toVisit \<union> ({a. feeds ns es current a} - set ancestors)"
    and s3: "distinct ancestors \<longrightarrow> distinct ancestors'"
    by blast+
  from "2.prems"(2) have cur: "current = nodeName \<or> current \<in> set ancestors"
    by simp
  have fed: "ancestor ns es nodeName a" if "feeds ns es current a" for a
  proof (cases "current = nodeName")
    case True
    with that show ?thesis by (simp add: ancestor.direct)
  next
    case False
    with cur "2.prems"(1) have "ancestor ns es nodeName current" by blast
    then show ?thesis using that by (rule ancestor.further)
  qed
  have p1: "set ancestors' \<subseteq> {a. ancestor ns es nodeName a}"
    unfolding s1 using fed "2.prems"(1) by blast
  have p2: "set toVisit' \<subseteq> insert nodeName (set ancestors')"
    unfolding s1 s2 using "2.prems"(2) by auto
  have p3: "\<forall>c \<in> insert nodeName (set ancestors') - set toVisit'.
              \<forall>a. feeds ns es c a \<longrightarrow> a \<in> set ancestors'"
  proof (intro ballI allI impI)
    fix c a
    assume c: "c \<in> insert nodeName (set ancestors') - set toVisit'" and fa: "feeds ns es c a"
    show "a \<in> set ancestors'"
    proof (cases "c = current")
      case True
      with fa show ?thesis unfolding s1 by simp
    next
      case False
      from c have "c \<in> insert nodeName (set ancestors) - set toVisit"
        unfolding s1 s2 by blast
      with False have "c \<in> insert nodeName (set ancestors) - set (current # toVisit)"
        by simp
      with "2.prems"(3) fa have "a \<in> set ancestors" by blast
      then show ?thesis unfolding s1 by simp
    qed
  qed
  have p4: "distinct ancestors'"
    using s3 "2.prems"(4) by simp
  from "2.IH" [OF f [symmetric] p1 p2 p3 p4] show ?case
    by (simp add: f)
qed

lemma getAncestors_correct:
  "set (getAncestors ns es nodeName) = {a. ancestor ns es nodeName a}"
  "distinct (getAncestors ns es nodeName)"
  using getAncestorsLoop_correct [of "[]" ns es nodeName "[nodeName]"]
  by (simp_all add: getAncestors_def)

lemma getAncestors_empty_iff:
  "getAncestors ns es nodeName = [] \<longleftrightarrow> (\<forall>a. \<not> feeds ns es nodeName a)"
proof -
  have "getAncestors ns es nodeName = [] \<longleftrightarrow> {a. ancestor ns es nodeName a} = {}"
    using getAncestors_correct(1) [of ns es nodeName] by auto
  also have "\<dots> \<longleftrightarrow> (\<forall>a. \<not> feeds ns es nodeName a)"
  proof
    assume "{a. ancestor ns es nodeName a} = {}"
    then show "\<forall>a. \<not> feeds ns es nodeName a"
      by (auto intro: ancestor.direct)
  next
    assume none: "\<forall>a. \<not> feeds ns es nodeName a"
    have "\<not> ancestor ns es nodeName a" for a
    proof
      assume "ancestor ns es nodeName a"
      then show False
        using none by (induction rule: ancestor.induct) auto
    qed
    then show "{a. ancestor ns es nodeName a} = {}" by auto
  qed
  finally show ?thesis .
qed


lemma source_Some:
  assumes "source ns current edge = Some a"
  shows "\<exists>n \<in> set ns. node_name n = a \<and> \<not> is_input_node n"
proof -
  from assms obtain src where f: "find (\<lambda>n. node_id n = from_node edge) ns = Some src"
    and src: "\<not> is_input_node src" "node_name src = a"
    by (auto simp: source_def split: if_splits option.splits)
  from f have "src \<in> set ns"
    by (auto simp: find_Some_iff)
  with src show ?thesis by blast
qed

lemma getAncestors_non_input:
  assumes "a \<in> set (getAncestors ns es nodeName)"
  shows "\<exists>n \<in> set ns. node_name n = a \<and> \<not> is_input_node n"
proof -
  from assms have "ancestor ns es nodeName a"
    using getAncestors_correct(1) [of ns es nodeName] by auto
  then obtain c where "feeds ns es c a"
    by (cases rule: ancestor.cases) auto
  then obtain edge where "source ns c edge = Some a"
    by (auto simp: feeds_def)
  then show ?thesis
    by (rule source_Some)
qed

lemma chain_ancestors:
  assumes "is_input_node inp" and "\<not> is_input_node x"
    and "node_id x = normalize (node_name x)" and "node_id y = normalize (node_name y)"
    and "distinct [node_id inp, node_id x, node_id y]"
  shows "getAncestors [inp, x, y]
           [\<lparr>edge_id = i1, from_node = node_id inp, to_node = node_id x\<rparr>,
            \<lparr>edge_id = i2, from_node = node_id x, to_node = node_id y\<rparr>] (node_name y)
         = [node_name x]"
proof -
  from assms(3-5) have ne: "normalize (node_name x) \<noteq> normalize (node_name y)"
    "node_id inp \<noteq> normalize (node_name x)" "normalize (node_name x) \<noteq> node_id inp"
    "normalize (node_name y) \<noteq> normalize (node_name x)"
    by auto
  show ?thesis
    using assms ne by (simp add: getAncestors_def visitEdge_def)
qed

lemma sample_ancestors: "getAncestors sampleNodes sampleEdges ''C'' = [''B'']"
  by (simp add: getAncestors_def visitEdge_def sampleNodes_def sampleEdges_def sampleNode_def sampleEdge_def normalize_def replaceAll_def)

text \<open>
  Claim C3 as stated fails on a chain \<open>Input \<rightarrow> X \<rightarrow> Y\<close> whose node ids are not the
  normalised names: the edge into \<open>Y\<close> ends at the id \<open>n2\<close>, \<open>getAncestors\<close> looks for
  edges that end at \<open>Y\<close>, and the result is empty.
\<close>

theorem ancestor_chain_counterexample:
  "set (getAncestors
       [sampleNode ''n0'' ''Input'' True, sampleNode ''n1'' ''X'' False, sampleNode ''n2'' ''Y'' False]
       [sampleEdge ''n0'' ''n1'', sampleEdge ''n1'' ''n2''] ''Y'') \<noteq> {''X''}"
  by (simp add: getAncestors_def visitEdge_def sampleNode_def sampleEdge_def normalize_def replaceAll_def)

text \<open>
  Claim C3, amended. \<open>getAncestors\<close> returns, without repetition, exactly the names
  reached from \<open>nodeName\<close> by going backward, one or more times, along an edge whose
  \<open>to_node\<close> is the current name with spaces and hyphens replaced by underscores to the
  node whose id is the edge's \<open>from_node\<close>, provided that node is not an input node;
  every name returned is the name of a node that is not an input node. For a chain
  \<open>inp \<rightarrow> x \<rightarrow> y\<close> of three nodes with distinct ids in which \<open>inp\<close> is an input node,
  \<open>x\<close> is not, and the ids of \<open>x\<close> and \<open>y\<close> are their normalised names, the ancestors of
  \<open>y\<close> are exactly \<open>x\<close>.
\<close>

theorem ancestor_computation:
  "set (getAncestors ns es nodeName) = {a. ancestor ns es nodeName a} \<and>
   distinct (getAncestors ns es nodeName) \<and>
   (\<forall>a \<in> set (getAncestors ns es nodeName). \<exists>n \<in> set ns. node_name n = a \<and> \<not> is_input_node n) \<and>
   (is_input_node inp \<and> \<not> is_input_node x \<and>
    node_id x = normalize (node_name x) \<and> node_id y = normalize (node_name y) \<and>
    distinct [node_id inp, node_id x, node_id y] \<longrightarrow>
      getAncestors [inp, x, y]
        [\<lparr>edge_id = i1, from_node = node_id inp, to_node = node_id x\<rparr>,
         \<lparr>edge_id = i2, from_node = node_id x, to_node = node_id y\<rparr>] (node_name y)
      = [node_name x])"
  using getAncestors_correct [of ns es nodeName] getAncestors_non_input [of _ ns es nodeName]
    chain_ancestors [of inp x y i1 i2]
  by blast

theorem ancestor_computation_witness:
  "is_input_node (sampleNode ''A'' ''A'' True) \<and> \<not> is_input_node (sampleNode ''B'' ''B'' False) \<and>
   node_id (sampleNode ''B'' ''B'' False) = normalize (node_name (sampleNode ''B'' ''B'' False)) \<and>
   node_id (sampleNode ''C'' ''C'' False) = normalize (node_name (sampleNode ''C'' ''C'' False)) \<and>
   distinct [node_id (sampleNode ''A'' ''A'' True), node_id (sampleNode ''B'' ''B'' False),
             node_id (sampleNode ''C'' ''C'' False)] \<and>
   getAncestors sampleNodes sampleEdges ''C'' = [''B''] \<and>
   ''B'' \<in> set (getAncestors sampleNodes sampleEdges ''C'') \<and>
   {a. ancestor sampleNodes sampleEdges ''C'' a} = {''B''}"
proof -
  have h: "is_input_node (sampleNode ''A'' ''A'' True) \<and> \<not> is_input_node (sampleNode ''B'' ''B'' False) \<and>
   node_id (sampleNode ''B'' ''B'' False) = normalize (node_name (sampleNode ''B'' ''B'' False)) \<and>
   node_id (sampleNode ''C'' ''C'' False) = normalize (node_name (sampleNode ''C'' ''C'' False)) \<and>
   distinct [node_id (sampleNode ''A'' ''A'' True), node_id (sampleNode ''B'' ''B'' False),
             node_id (sampleNode ''C'' ''C'' False)]"
    by (simp add: sampleNode_def normalize_def replaceAll_def)
  note T = ancestor_computation [of sampleNodes sampleEdges "''C''" "sampleNode ''A'' ''A'' True"
      "sampleNode ''B'' ''B'' False" "sampleNode ''C'' ''C'' False" "''A-B''" "''B-C''"]
  from T have c: "set (getAncestors sampleNodes sampleEdges ''C'') =
      {a. ancestor sampleNodes sampleEdges ''C'' a}"
    by blast
  from T h have "getAncestors
      [sampleNode ''A'' ''A'' True, sampleNode ''B'' ''B'' False, sampleNode ''C'' ''C'' False]
      [\<lparr>edge_id = ''A-B'', from_node = node_id (sampleNode ''A'' ''A'' True),
          to_node = node_id (sampleNode ''B'' ''B'' False)\<rparr>,
       \<lparr>edge_id = ''B-C'', from_node = node_id (sampleNode ''B'' ''B'' False),
          to_node = node_id (sampleNode ''C'' ''C'' False)\<rparr>]
      (node_name (sampleNode ''C'' ''C'' False)) = [node_name (sampleNode ''B'' ''B'' False)]"
    by blast
  then have r: "getAncestors sampleNodes sampleEdges ''C'' = [''B'']"
    by (simp add: sampleNodes_def sampleEdges_def sampleEdge_def sampleNode_def)
  from c r have a: "{a. ancestor sampleNodes sampleEdges ''C'' a} = {''B''}"
    by simp
  from r have b: "''B'' \<in> set (getAncestors sampleNodes sampleEdges ''C'')"
    by simp
  from h r a b show ?thesis by blast
qed

section \<open>Dictionary reads\<close>

lemma get_own: "dict key = Some v \<Longrightarrow> get dict key = Own v"
  by (simp add: get_def)

lemma get_plain:
  "key \<notin> dom objectPrototype \<Longrightarrow>
     get dict key = (case dict key of None \<Rightarrow> Absent | Some v \<Rightarrow> Own v)"
  by (auto simp: get_def split: option.splits)

lemma get_not_own: "dict key = None \<Longrightarrow> get dict key \<noteq> Own v"
  by (simp add: get_def split: option.splits)

lemma get_Inherited: "get dict key = Inherited len \<Longrightarrow> dict key = None \<and> key \<in> dom objectPrototype"
  by (auto simp: get_def split: option.splits)

lemma dom_objectPrototype:
  "dom objectPrototype =
     {''constructor'', ''__defineGetter__'', ''__defineSetter__'', ''hasOwnProperty'',
      ''__lookupGetter__'', ''__lookupSetter__'', ''isPrototypeOf'', ''propertyIsEnumerable'',
      ''toString'', ''valueOf'', ''__proto__'', ''toLocaleString''}"
  by (auto simp: objectPrototype_def)

lemma decimal_digits: "decimal n \<noteq> [] \<and> set (decimal n) \<subseteq> set ''0123456789''"
proof (induction n rule: decimal.induct)
  case (1 n)
  have d: "digitChar k \<in> set ''0123456789''" if "k < 10" for k
  proof -
    from that have "k \<in> {0, 1, 2, 3, 4, 5, 6, 7, 8, 9}" by auto
    then show ?thesis by (auto simp: digitChar_def)
  qed
  show ?case
  proof (cases "n < 10")
    case True
    then show ?thesis using d [of n] by (subst (1 2) decimal.simps) simp
  next
    case False
    with 1 have "decimal (n div 10) \<noteq> [] \<and> set (decimal (n div 10)) \<subseteq> set ''0123456789''"
      by simp
    moreover have "digitChar (n mod 10) \<in> set ''0123456789''"
      by (rule d) simp
    ultimately show ?thesis using False by (subst (1 2) decimal.simps) simp
  qed
qed

lemma decimal_0: "decimal 0 = ''0''"
  by (subst decimal.simps) (simp add: digitChar_def)

lemma mintRunId_nonempty: "mintRunId nodeName now rnd \<noteq> []"
  by (simp add: mintRunId_def)

text \<open>A minted run id holds a digit and no inherited name does, so the write under a new run id is an ordinary one.\<close>

lemma mintRunId_plain: "mintRunId nodeName now rnd \<notin> dom objectPrototype"
proof -
  from decimal_digits [of now] obtain c where c: "c \<in> set (decimal now)" "c \<in> set ''0123456789''"
    by (cases "decimal now") auto
  then have "c \<in> set (mintRunId nodeName now rnd)"
    by (simp add: mintRunId_def)
  moreover have "c \<notin> set k" if "k \<in> dom objectPrototype" for k
    using that c(2) unfolding dom_objectPrototype by auto
  ultimately show ?thesis by blast
qed

section \<open>Completion ingestion\<close>

lemma removePending_Inr:
  assumes "removePending runId c t = Inr t'"
  shows "globalProcessedSet t' = globalProcessedSet t" and "nodeResults t' = nodeResults t"
    and "selectedResultIndex t' = selectedResultIndex t" and "runIdToNodes t' = runIdToNodes t"
    and "pendingOf t' m = (if m = c then filter (\<lambda>id. id \<noteq> runId) (pendingOf t m) else pendingOf t m)"
  using assms
  by (auto simp: removePending_def pendingOf_def get_def split: lookup.splits option.splits)

lemma removePending_Inl:
  assumes "removePending runId c t = Inl e"
  shows "pendingOf t c = []" and "c \<in> dom objectPrototype"
  using assms
  by (auto simp: removePending_def pendingOf_def get_def split: lookup.splits option.splits)

lemma retireRun_Inr:
  assumes "retireRun runId t = Inr t'"
  shows "globalProcessedSet t' = globalProcessedSet t" and "nodeResults t' = nodeResults t"
    and "selectedResultIndex t' = selectedResultIndex t" and "pendingRunIds t' = pendingRunIds t"
  using assms
  by (auto simp: retireRun_def split: lookup.splits if_splits)

lemma retireRun_Inl: "retireRun runId t = Inl e \<Longrightarrow> runId \<in> dom objectPrototype"
  by (auto simp: retireRun_def dest: get_Inherited split: lookup.splits if_splits)

lemma appendResult_Inr:
  assumes "appendResult dataNodes c t = Inr t'"
  shows "globalProcessedSet t' = globalProcessedSet t" and "pendingRunIds t' = pendingRunIds t"
  using assms
  by (auto simp: appendResult_def Let_def split: option.splits lookup.splits if_splits)

lemma appendResult_Inl: "appendResult dataNodes c t = Inl e \<Longrightarrow> c \<in> dom objectPrototype"
  by (auto simp: appendResult_def Let_def dest: get_Inherited split: option.splits lookup.splits if_splits)

lemma appendResult_no_result: "\<not> hasResult dataNodes c \<Longrightarrow> appendResult dataNodes c t = Inr t"
  by (auto simp: hasResult_def appendResult_def split: option.splits)

lemma appendResult_hasResult:
  assumes "hasResult dataNodes c" and "c \<notin> dom objectPrototype"
  shows "\<exists>t'. appendResult dataNodes c t = Inr t' \<and>
           getResultCount t' c = getResultCount t c + 1 \<and>
           selectedResultIndex t' c = Some (int (getResultCount t c))"
  using assms
  by (auto simp: hasResult_def appendResult_def getResultCount_def get_plain Let_def
      split: option.splits)

lemma pendingOf_cong: "pendingRunIds t' = pendingRunIds t \<Longrightarrow> pendingOf t' m = pendingOf t m"
  by (simp add: pendingOf_def)

lemma getResultCount_cong: "nodeResults t' = nodeResults t \<Longrightarrow> getResultCount t' n = getResultCount t n"
  by (simp add: getResultCount_def)

lemma ingest_no_notification: "notification v = None \<Longrightarrow> ingest t v = t"
  by (auto simp: notification_def ingest_def split: option.splits if_splits)

lemma ingest_duplicate:
  "notification v = Some (runId, n) \<Longrightarrow> completionKey runId n \<in> globalProcessedSet t \<Longrightarrow>
     ingest t v = t"
  by (auto simp: notification_def ingest_def split: option.splits if_splits)

text \<open>The effect on a notification whose key is new, step by step.\<close>

lemma ingest_fresh:
  assumes "notification (Some data) = Some (runId, c)"
    and "completionKey runId c \<notin> globalProcessedSet t"
  shows "ingest t (Some data) =
     (let t0 = t\<lparr>globalProcessedSet := insert (completionKey runId c) (globalProcessedSet t)\<rparr> in
      case removePending runId c t0 of
        Inl e \<Rightarrow> t0
      | Inr t1 \<Rightarrow>
          (case retireRun runId t1 of
             Inl e \<Rightarrow> t1
           | Inr t2 \<Rightarrow>
               (case appendResult (cd_nodes data) c t2 of
                  Inl e \<Rightarrow> t2
                | Inr t3 \<Rightarrow> t3)))"
  using assms
  by (auto simp: notification_def ingest_def Let_def split: option.splits if_splits)

lemma ingest_fresh_effect:
  assumes n: "notification (Some data) = Some (runId, c)"
    and k: "completionKey runId c \<notin> globalProcessedSet t"
  shows "globalProcessedSet (ingest t (Some data)) = insert (completionKey runId c) (globalProcessedSet t)"
    and "pendingOf (ingest t (Some data)) m =
           (if m = c then filter (\<lambda>id. id \<noteq> runId) (pendingOf t m) else pendingOf t m)"
proof -
  let ?t0 = "t\<lparr>globalProcessedSet := insert (completionKey runId c) (globalProcessedSet t)\<rparr>"
  let ?S = "insert (completionKey runId c) (globalProcessedSet t)"
  let ?P = "if m = c then filter (\<lambda>id. id \<noteq> runId) (pendingOf t m) else pendingOf t m"
  have p0: "pendingOf ?t0 m = pendingOf t m" for m
    by (simp add: pendingOf_def)
  have s0: "globalProcessedSet ?t0 = ?S"
    by simp
  note eq = ingest_fresh [OF n k]
  have "globalProcessedSet (ingest t (Some data)) = ?S \<and> pendingOf (ingest t (Some data)) m = ?P"
  proof (cases "removePending runId c ?t0")
    case (Inl e)
    then have i: "ingest t (Some data) = ?t0"
      unfolding eq Let_def by simp
    from removePending_Inl(1) [OF Inl] have "pendingOf t c = []"
      by (simp add: p0)
    then show ?thesis
      unfolding i by (simp add: p0)
  next
    case (Inr t1)
    note a = Inr
    have s1: "globalProcessedSet t1 = ?S"
      using removePending_Inr(1) [OF a] by simp
    have p1: "pendingOf t1 m = ?P"
      using removePending_Inr(5) [OF a, of m] by (simp add: p0)
    show ?thesis
    proof (cases "retireRun runId t1")
      case (Inl e)
      with a have "ingest t (Some data) = t1"
        unfolding eq Let_def by simp
      with s1 p1 show ?thesis by simp
    next
      case (Inr t2)
      note b = Inr
      have s2: "globalProcessedSet t2 = ?S"
        using retireRun_Inr(1) [OF b] s1 by simp
      have p2: "pendingOf t2 m = ?P"
        using pendingOf_cong [OF retireRun_Inr(4) [OF b], of m] p1 by simp
      show ?thesis
      proof (cases "appendResult (cd_nodes data) c t2")
        case (Inl e)
        with a b have "ingest t (Some data) = t2"
          unfolding eq Let_def by simp
        with s2 p2 show ?thesis by simp
      next
        case (Inr t3)
        with a b have i: "ingest t (Some data) = t3"
          unfolding eq Let_def by simp
        have "globalProcessedSet t3 = ?S"
          using appendResult_Inr(1) [OF Inr] s2 by simp
        moreover have "pendingOf t3 m = ?P"
          using pendingOf_cong [OF appendResult_Inr(2) [OF Inr], of m] p2 by simp
        ultimately show ?thesis
          unfolding i by simp
      qed
    qed
  qed
  then show "globalProcessedSet (ingest t (Some data)) = ?S"
    and "pendingOf (ingest t (Some data)) m = ?P"
    by simp_all
qed

lemma ingest_marks:
  assumes "notification v = Some (runId, n)"
  shows "completionKey runId n \<in> globalProcessedSet (ingest t v)"
proof (cases "completionKey runId n \<in> globalProcessedSet t")
  case True
  with assms show ?thesis by (simp add: ingest_duplicate)
next
  case False
  from assms obtain data where "v = Some data"
    by (cases v) (auto simp: notification_def)
  with assms False show ?thesis by (simp add: ingest_fresh_effect(1))
qed

lemma ingest_twice: "ingest (ingest t v) v = ingest t v"
proof (cases "notification v")
  case None
  then show ?thesis by (simp add: ingest_no_notification)
next
  case (Some p)
  then obtain runId n where "notification v = Some (runId, n)"
    by (cases p) auto
  then show ?thesis
    using ingest_marks ingest_duplicate by blast
qed

lemma ingest_processed_mono: "globalProcessedSet t \<subseteq> globalProcessedSet (ingest t v)"
proof (cases "notification v")
  case None
  then show ?thesis by (simp add: ingest_no_notification)
next
  case (Some p)
  then obtain runId n where n: "notification v = Some (runId, n)"
    by (cases p) auto
  show ?thesis
  proof (cases "completionKey runId n \<in> globalProcessedSet t")
    case True
    with n show ?thesis by (simp add: ingest_duplicate)
  next
    case False
    from n obtain data where "v = Some data"
      by (cases v) (auto simp: notification_def)
    with n False show ?thesis by (auto simp: ingest_fresh_effect(1))
  qed
qed

lemma foldl_ingest_processed_mono:
  "globalProcessedSet t \<subseteq> globalProcessedSet (foldl ingest t vs)"
proof (induction vs arbitrary: t)
  case Nil
  show ?case by simp
next
  case (Cons v vs)
  from ingest_processed_mono [of t v] Cons [of "ingest t v"] show ?case by auto
qed

lemma ingest_later_duplicate:
  "ingest (foldl ingest (ingest t v) vs) v = foldl ingest (ingest t v) vs"
proof (cases "notification v")
  case None
  then show ?thesis by (simp add: ingest_no_notification)
next
  case (Some p)
  then obtain runId n where n: "notification v = Some (runId, n)"
    by (cases p) auto
  then have "completionKey runId n \<in> globalProcessedSet (ingest t v)"
    by (rule ingest_marks)
  with foldl_ingest_processed_mono [of "ingest t v" vs]
  have "completionKey runId n \<in> globalProcessedSet (foldl ingest (ingest t v) vs)"
    by blast
  with n show ?thesis by (rule ingest_duplicate)
qed

lemma ingest_fresh_result:
  assumes n: "notification (Some data) = Some (runId, c)"
    and k: "completionKey runId c \<notin> globalProcessedSet t"
    and res: "hasResult (cd_nodes data) c"
    and plain: "c \<notin> dom objectPrototype" "runId \<notin> dom objectPrototype"
  shows "getResultCount (ingest t (Some data)) c = getResultCount t c + 1"
    and "selectedResultIndex (ingest t (Some data)) c = Some (int (getResultCount t c))"
proof -
  let ?t0 = "t\<lparr>globalProcessedSet := insert (completionKey runId c) (globalProcessedSet t)\<rparr>"
  note eq = ingest_fresh [OF n k]
  obtain t1 where a: "removePending runId c ?t0 = Inr t1"
    using removePending_Inl(2) plain(1) by (cases "removePending runId c ?t0") blast+
  obtain t2 where b: "retireRun runId t1 = Inr t2"
    using retireRun_Inl plain(2) by (cases "retireRun runId t1") blast+
  have c2: "getResultCount t2 c = getResultCount t c"
  proof -
    have "nodeResults t2 = nodeResults t"
      using retireRun_Inr(2) [OF b] removePending_Inr(2) [OF a] by simp
    then show ?thesis by (rule getResultCount_cong)
  qed
  from appendResult_hasResult [OF res plain(1), of t2]
  obtain t3 where d: "appendResult (cd_nodes data) c t2 = Inr t3"
    and r: "getResultCount t3 c = getResultCount t2 c + 1"
      "selectedResultIndex t3 c = Some (int (getResultCount t2 c))"
    by blast
  from a b d have i: "ingest t (Some data) = t3"
    unfolding eq Let_def by simp
  from r c2 show "getResultCount (ingest t (Some data)) c = getResultCount t c + 1"
    and "selectedResultIndex (ingest t (Some data)) c = Some (int (getResultCount t c))"
    unfolding i by simp_all
qed

lemma completionKey_inj [simp]:
  "completionKey runId a = completionKey runId b \<longleftrightarrow> a = b"
  "completionKey r1 n = completionKey r2 n \<longleftrightarrow> r1 = r2"
  by (simp_all add: completionKey_def)

lemma sample_run_id: "mintRunId ''C'' 0 ''r'' = ''C_0_r''"
  by (simp add: mintRunId_def decimal_0)

text \<open>
  Claim C1 as stated fails once the purge has run. A run to the single node \<open>C\<close> is
  triggered and its completion is delivered: the run retires, its purge is scheduled, and
  \<open>C\<close> has one result. The purge runs and deletes the key, and the same notification,
  delivered once more, is appended again: two results, not one.
\<close>

theorem idempotent_completion_counterexample:
  "getResultCount
     (ingest (fst (handleRunToNode [resultNode ''C''] [] None initialTracker ''C'' 0 ''r''))
        (Some (completion ''C_0_r'' ''C'' [resultNode ''C'']))) ''C'' = 1 \<and>
   getResultCount
     (ingest
        (fireTimer
           (ingest (fst (handleRunToNode [resultNode ''C''] [] None initialTracker ''C'' 0 ''r''))
              (Some (completion ''C_0_r'' ''C'' [resultNode ''C'']))))
        (Some (completion ''C_0_r'' ''C'' [resultNode ''C'']))) ''C'' = 2"
  by (simp add: handleRunToNode_def getAncestors_def nodesToRun_def hasNoResult_def addPending_def
      mintRunId_def decimal_0 ingest_def fireTimer_def retireRun_def removePending_def
      appendResult_def completion_def sampleValue_def resultNode_def sampleNode_def
      initialTracker_def getResultCount_def completionKey_def get_def objectPrototype_def Let_def)

text \<open>
  Claim C1, amended. For every tracker state and every held value, running the effect on
  the same value \<open>n + 1\<close> times in a row leaves the whole tracker state, and so
  \<open>pendingRunIds\<close>, \<open>nodeResults\<close> and \<open>selectedResultIndex\<close>, as running it once
  does; a copy that arrives after any other values \<open>vs\<close> have been processed changes
  nothing either; and in general a notification whose key is in \<open>globalProcessedSet\<close>
  changes nothing. The purge scheduled with \<open>setTimeout\<close> is the separate step
  \<open>fireTimer\<close>: the guarantee lasts until it has deleted the key.
\<close>

theorem idempotent_completion:
  "((\<lambda>s. ingest s v) ^^ Suc n) t = ingest t v \<and>
   ingest (foldl ingest (ingest t v) vs) v = foldl ingest (ingest t v) vs \<and>
   (notification v = Some (runId, c) \<and> completionKey runId c \<in> globalProcessedSet t \<longrightarrow>
      ingest t v = t)"
proof (intro conjI impI)
  show "((\<lambda>s. ingest s v) ^^ Suc n) t = ingest t v"
    by (induction n) (simp_all add: ingest_twice)
  show "ingest (foldl ingest (ingest t v) vs) v = foldl ingest (ingest t v) vs"
    by (rule ingest_later_duplicate)
  assume "notification v = Some (runId, c) \<and> completionKey runId c \<in> globalProcessedSet t"
  then show "ingest t v = t"
    by (simp add: ingest_duplicate)
qed

theorem idempotent_completion_witness:
  "notification (Some (completion ''r1'' ''C'' [resultNode ''C''])) = Some (''r1'', ''C'') \<and>
   completionKey ''r1'' ''C'' \<in> globalProcessedSet
     (ingest initialTracker (Some (completion ''r1'' ''C'' [resultNode ''C'']))) \<and>
   ((\<lambda>s. ingest s (Some (completion ''r1'' ''C'' [resultNode ''C'']))) ^^ Suc 2) initialTracker =
     ingest initialTracker (Some (completion ''r1'' ''C'' [resultNode ''C''])) \<and>
   ingest (ingest initialTracker (Some (completion ''r1'' ''C'' [resultNode ''C''])))
     (Some (completion ''r1'' ''C'' [resultNode ''C''])) =
     ingest initialTracker (Some (completion ''r1'' ''C'' [resultNode ''C''])) \<and>
   getResultCount (ingest initialTracker (Some (completion ''r1'' ''C'' [resultNode ''C'']))) ''C'' = 1"
proof -
  let ?v = "Some (completion ''r1'' ''C'' [resultNode ''C''])"
  have n: "notification ?v = Some (''r1'', ''C'')"
    by (simp add: notification_def completion_def sampleValue_def)
  have k: "completionKey ''r1'' ''C'' \<notin> globalProcessedSet initialTracker"
    by (simp add: initialTracker_def)
  have r: "hasResult (cd_nodes (completion ''r1'' ''C'' [resultNode ''C''])) ''C''"
    by (simp add: hasResult_def completion_def sampleValue_def resultNode_def sampleNode_def)
  have p: "''C'' \<notin> dom objectPrototype" "''r1'' \<notin> dom objectPrototype"
    by (simp_all add: dom_objectPrototype)
  have "getResultCount initialTracker ''C'' = 0"
    by (simp add: getResultCount_def initialTracker_def get_def objectPrototype_def)
  with ingest_fresh_result(1) [OF n k r p]
  have c: "getResultCount (ingest initialTracker ?v) ''C'' = 1"
    by simp
  have m: "completionKey ''r1'' ''C'' \<in> globalProcessedSet (ingest initialTracker ?v)"
    using n by (rule ingest_marks)
  note T = idempotent_completion [where v = ?v and n = 2 and t = initialTracker and vs = "[]"]
  note U = idempotent_completion [where v = ?v and t = "ingest initialTracker ?v"
      and runId = "''r1''" and c = "''C''", THEN conjunct2, THEN conjunct2, THEN mp, OF conjI [OF n m]]
  from T U n m c show ?thesis by blast
qed

text \<open>
  For names and run ids that \<open>Object.prototype\<close> does not hold, consecutive completions
  with run ids of their own, keys not yet consumed and a non-null output each lengthen the
  history by one each and select the newest entry.
\<close>

lemma history_plain_names:
  assumes "\<forall>d \<in> set ds. \<exists>runId. notification (Some d) = Some (runId, n) \<and>
              completionKey runId n \<notin> globalProcessedSet t \<and> runId \<notin> dom objectPrototype"
    and "distinct (map run_id ds)"
    and "\<forall>d \<in> set ds. hasResult (cd_nodes d) n"
    and "n \<notin> dom objectPrototype"
  shows "getResultCount (foldl ingest t (map Some ds)) n = getResultCount t n + length ds \<and>
         (ds \<noteq> [] \<longrightarrow> selectedResultIndex (foldl ingest t (map Some ds)) n =
            Some (int (getResultCount t n + length ds) - 1))"
  using assms(1-3)
proof (induction ds arbitrary: t)
  case Nil
  show ?case by simp
next
  case (Cons d ds)
  have "d \<in> set (d # ds)" by simp
  with Cons.prems(1) obtain runId where d: "notification (Some d) = Some (runId, n)"
    and fresh: "completionKey runId n \<notin> globalProcessedSet t"
    and rp: "runId \<notin> dom objectPrototype"
    by blast
  from d have rid: "run_id d = Some runId"
    by (auto simp: notification_def split: option.splits if_splits)
  from Cons.prems(3) have res: "hasResult (cd_nodes d) n" by simp
  let ?t = "ingest t (Some d)"
  note step = ingest_fresh_result [OF d fresh res assms(4) rp] ingest_fresh_effect(1) [OF d fresh]
  have "\<forall>d' \<in> set ds. \<exists>runId'. notification (Some d') = Some (runId', n) \<and>
          completionKey runId' n \<notin> globalProcessedSet ?t \<and> runId' \<notin> dom objectPrototype"
  proof
    fix d' assume d': "d' \<in> set ds"
    then have "d' \<in> set (d # ds)" by simp
    with Cons.prems(1) obtain runId' where n': "notification (Some d') = Some (runId', n)"
      and f': "completionKey runId' n \<notin> globalProcessedSet t"
      and p': "runId' \<notin> dom objectPrototype"
      by blast
    from n' have "run_id d' = Some runId'"
      by (auto simp: notification_def split: option.splits if_splits)
    with d' Cons.prems(2) rid have "runId' \<noteq> runId"
      by (auto simp: image_iff)
    with f' have "completionKey runId' n \<notin> globalProcessedSet ?t"
      by (simp add: step(3))
    with n' p' show "\<exists>runId'. notification (Some d') = Some (runId', n) \<and>
          completionKey runId' n \<notin> globalProcessedSet ?t \<and> runId' \<notin> dom objectPrototype"
      by blast
  qed
  moreover from Cons.prems(2) have "distinct (map run_id ds)" by simp
  moreover from Cons.prems(3) have "\<forall>d \<in> set ds. hasResult (cd_nodes d) n" by simp
  ultimately have IH: "getResultCount (foldl ingest ?t (map Some ds)) n = getResultCount ?t n + length ds \<and>
         (ds \<noteq> [] \<longrightarrow> selectedResultIndex (foldl ingest ?t (map Some ds)) n =
            Some (int (getResultCount ?t n + length ds) - 1))"
    by (rule Cons.IH)
  show ?case
  proof (cases "ds = []")
    case True
    then show ?thesis by (simp add: step(1,2))
  next
    case False
    with IH show ?thesis by (simp add: step(1,2))
  qed
qed

text \<open>
  Claim C4 at a failing input. A completion for a node named \<open>toString\<close> carries a
  non-null output, and its key is new. \<open>pendingRunIds['toString']\<close> is the inherited
  function, so \<open>.filter\<close> throws inside the \<open>try\<close>, the effect ends in its \<open>catch\<close>,
  and no result is recorded: after this first completion the node has no entry in
  \<open>nodeResults\<close> and none in \<open>selectedResultIndex\<close>, and its result count is 0, where
  the claim gives length 1 and index 0.
\<close>

theorem history_failing_input:
  "notification (Some (completion ''r1'' ''toString'' [resultNode ''toString''])) = Some (''r1'', ''toString'') \<and>
   hasResult (cd_nodes (completion ''r1'' ''toString'' [resultNode ''toString''])) ''toString'' \<and>
   getResultCount initialTracker ''toString'' = 0 \<and>
   nodeResults (ingest initialTracker (Some (completion ''r1'' ''toString'' [resultNode ''toString'']))) ''toString''
     = None \<and>
   selectedResultIndex (ingest initialTracker (Some (completion ''r1'' ''toString'' [resultNode ''toString''])))
     ''toString'' = None \<and>
   getResultCount (ingest initialTracker (Some (completion ''r1'' ''toString'' [resultNode ''toString''])))
     ''toString'' = 0"
  by (simp add: notification_def hasResult_def completion_def sampleValue_def resultNode_def
      sampleNode_def ingest_def removePending_def get_def objectPrototype_def initialTracker_def
      getResultCount_def completionKey_def Let_def)

section \<open>Triggering a run and badge accounting\<close>

lemma addPending_Inr:
  assumes "addPending runId x t = Inr t'"
  shows "pendingOf t' m = (if m = x then pendingOf t m @ [runId] else pendingOf t m)"
    and "m \<noteq> x \<Longrightarrow> pendingRunIds t' m = pendingRunIds t m"
    and "globalProcessedSet t' = globalProcessedSet t" and "nodeResults t' = nodeResults t"
    and "selectedResultIndex t' = selectedResultIndex t" and "runIdToNodes t' = runIdToNodes t"
  using assms
  by (auto simp: addPending_def pendingOf_def get_def split: lookup.splits option.splits)

lemma addPending_plain: "x \<notin> dom objectPrototype \<Longrightarrow> \<exists>t'. addPending runId x t = Inr t'"
  by (simp add: addPending_def get_plain split: option.splits)

lemma addPendingLoop_untouched:
  "m \<notin> set xs \<Longrightarrow> pendingRunIds (fst (addPendingLoop runId xs t)) m = pendingRunIds t m"
proof (induction xs arbitrary: t)
  case Nil
  show ?case by simp
next
  case (Cons x xs)
  show ?case
  proof (cases "addPending runId x t")
    case (Inl e)
    then show ?thesis by simp
  next
    case (Inr t')
    with Cons.prems addPending_Inr(2) [OF Inr, of m] Cons.IH [of t'] show ?thesis by simp
  qed
qed

lemma addPendingLoop_fields:
  "globalProcessedSet (fst (addPendingLoop runId xs t)) = globalProcessedSet t \<and>
   nodeResults (fst (addPendingLoop runId xs t)) = nodeResults t \<and>
   selectedResultIndex (fst (addPendingLoop runId xs t)) = selectedResultIndex t \<and>
   runIdToNodes (fst (addPendingLoop runId xs t)) = runIdToNodes t"
proof (induction xs arbitrary: t)
  case Nil
  show ?case by simp
next
  case (Cons x xs)
  show ?case
  proof (cases "addPending runId x t")
    case (Inl e)
    then show ?thesis by simp
  next
    case (Inr t')
    with addPending_Inr(3-6) [OF Inr] Cons.IH [of t'] show ?thesis by simp
  qed
qed

lemma addPendingLoop_plain:
  assumes "\<forall>x \<in> set xs. x \<notin> dom objectPrototype"
  shows "snd (addPendingLoop runId xs t) = None \<and>
         pendingOf (fst (addPendingLoop runId xs t)) m =
           pendingOf t m @ replicate (count_list xs m) runId"
  using assms
proof (induction xs arbitrary: t)
  case Nil
  show ?case by simp
next
  case (Cons x xs)
  from Cons.prems have "x \<notin> dom objectPrototype" by simp
  then obtain t' where a: "addPending runId x t = Inr t'"
    using addPending_plain by blast
  from Cons.prems have "\<forall>x \<in> set xs. x \<notin> dom objectPrototype" by simp
  from Cons.IH [OF this, of t'] addPending_Inr(1) [OF a, of m] a show ?case
    by (simp add: replicate_app_Cons_same)
qed

lemma pendingOf_runIdToNodes_update [simp]:
  "pendingOf (t\<lparr>runIdToNodes := r\<rparr>) m = pendingOf t m"
  by (simp add: pendingOf_def)

lemma handleRunToNode_state:
  "fst (handleRunToNode ns es v t nodeName now rnd) =
     (if snd (addPendingLoop (mintRunId nodeName now rnd)
               (nodesToRun t (getAncestors ns es nodeName) nodeName) t) = None
      then (fst (addPendingLoop (mintRunId nodeName now rnd)
                  (nodesToRun t (getAncestors ns es nodeName) nodeName) t))
             \<lparr>runIdToNodes :=
                (runIdToNodes (fst (addPendingLoop (mintRunId nodeName now rnd)
                                     (nodesToRun t (getAncestors ns es nodeName) nodeName) t)))
                (mintRunId nodeName now rnd \<mapsto> nodesToRun t (getAncestors ns es nodeName) nodeName)\<rparr>
      else fst (addPendingLoop (mintRunId nodeName now rnd)
                  (nodesToRun t (getAncestors ns es nodeName) nodeName) t))"
  by (auto simp: handleRunToNode_def Let_def split: prod.splits option.splits)

lemma handleRunToNode_outcome:
  "snd (handleRunToNode ns es v t nodeName now rnd) =
     (case snd (addPendingLoop (mintRunId nodeName now rnd)
                  (nodesToRun t (getAncestors ns es nodeName) nodeName) t) of
        Some e \<Rightarrow> Threw e
      | None \<Rightarrow> (case v of None \<Rightarrow> Returned | Some d \<Rightarrow> Threw ReferenceError))"
  by (auto simp: handleRunToNode_def Let_def split: prod.splits option.splits)

lemma handleRunToNode_pendingRunIds:
  "pendingRunIds (fst (handleRunToNode ns es v t nodeName now rnd)) =
     pendingRunIds (fst (addPendingLoop (mintRunId nodeName now rnd)
                      (nodesToRun t (getAncestors ns es nodeName) nodeName) t))"
  by (simp add: handleRunToNode_state)

lemma handleRunToNode_untouched:
  "m \<notin> set (nodesToRun t (getAncestors ns es nodeName) nodeName) \<Longrightarrow>
     pendingRunIds (fst (handleRunToNode ns es v t nodeName now rnd)) m = pendingRunIds t m"
  by (simp add: handleRunToNode_pendingRunIds addPendingLoop_untouched)

lemma handleRunToNode_processed:
  "globalProcessedSet (fst (handleRunToNode ns es v t nodeName now rnd)) = globalProcessedSet t"
  using addPendingLoop_fields [of "mintRunId nodeName now rnd"
      "nodesToRun t (getAncestors ns es nodeName) nodeName" t]
  by (simp add: handleRunToNode_state)

lemma handleRunToNode_plain:
  assumes "\<forall>x \<in> set (nodesToRun t (getAncestors ns es nodeName) nodeName). x \<notin> dom objectPrototype"
  shows "pendingOf (fst (handleRunToNode ns es v t nodeName now rnd)) m =
           pendingOf t m @ replicate (count_list (nodesToRun t (getAncestors ns es nodeName) nodeName) m)
             (mintRunId nodeName now rnd)"
    and "runIdToNodes (fst (handleRunToNode ns es v t nodeName now rnd)) (mintRunId nodeName now rnd) =
           Some (nodesToRun t (getAncestors ns es nodeName) nodeName)"
    and "snd (handleRunToNode ns es v t nodeName now rnd) =
           (case v of None \<Rightarrow> Returned | Some d \<Rightarrow> Threw ReferenceError)"
proof -
  let ?R = "mintRunId nodeName now rnd"
  let ?xs = "nodesToRun t (getAncestors ns es nodeName) nodeName"
  from addPendingLoop_plain [OF assms, of ?R t m]
  have e: "snd (addPendingLoop ?R ?xs t) = None"
    and p: "pendingOf (fst (addPendingLoop ?R ?xs t)) m = pendingOf t m @ replicate (count_list ?xs m) ?R"
    by simp_all
  from e p show "pendingOf (fst (handleRunToNode ns es v t nodeName now rnd)) m =
           pendingOf t m @ replicate (count_list ?xs m) ?R"
    by (simp add: handleRunToNode_state)
  from e show "runIdToNodes (fst (handleRunToNode ns es v t nodeName now rnd)) ?R = Some ?xs"
    by (simp add: handleRunToNode_state)
  from e show "snd (handleRunToNode ns es v t nodeName now rnd) =
           (case v of None \<Rightarrow> Returned | Some d \<Rightarrow> Threw ReferenceError)"
    by (simp add: handleRunToNode_outcome)
qed

lemma member_tracking:
  assumes P: "pendingOf t1 m = P @ [R]" and fresh: "R \<notin> set P"
    and key: "completionKey R m \<notin> globalProcessedSet t1"
    and m: "m \<noteq> []" and R: "R \<noteq> []"
    and ds: "\<forall>d \<in> set ds. run_id d = Some R"
  shows "(completionKey R m \<in> globalProcessedSet (foldl ingest t1 (map Some ds))
            \<longleftrightarrow> Some m \<in> completed_node ` set ds) \<and>
         pendingOf (foldl ingest t1 (map Some ds)) m =
           (if Some m \<in> completed_node ` set ds then P else P @ [R])"
  using ds
proof (induction ds rule: rev_induct)
  case Nil
  show ?case using P key by simp
next
  case (snoc d ds)
  let ?s = "foldl ingest t1 (map Some ds)"
  from snoc have IH: "(completionKey R m \<in> globalProcessedSet ?s \<longleftrightarrow> Some m \<in> completed_node ` set ds)"
    "pendingOf ?s m = (if Some m \<in> completed_node ` set ds then P else P @ [R])"
    by simp_all
  from snoc.prems have rid: "run_id d = Some R" by simp
  have step: "foldl ingest t1 (map Some (ds @ [d])) = ingest ?s (Some d)"
    by simp
  show ?case
  proof (cases "notification (Some d)")
    case None
    then have same: "ingest ?s (Some d) = ?s"
      by (rule ingest_no_notification)
    from None rid R m have "completed_node d \<noteq> Some m"
      by (auto simp: notification_def split: option.splits if_splits)
    with IH show ?thesis
      unfolding step same by auto
  next
    case (Some p)
    with rid obtain c where n: "notification (Some d) = Some (R, c)"
      by (cases p) (auto simp: notification_def split: option.splits if_splits)
    then have c: "completed_node d = Some c"
      by (auto simp: notification_def split: option.splits if_splits)
    show ?thesis
    proof (cases "completionKey R c \<in> globalProcessedSet ?s")
      case True
      with n have same: "ingest ?s (Some d) = ?s"
        by (simp add: ingest_duplicate)
      from True IH(1) c have "c = m \<longrightarrow> Some m \<in> completed_node ` set ds"
        by auto
      with IH c show ?thesis
        unfolding step same by auto
    next
      case False
      note eff = ingest_fresh_effect [OF n False]
      show ?thesis
      proof (cases "c = m")
        case True
        with False IH have "pendingOf ?s m = P @ [R]" by auto
        moreover from fresh have "filter (\<lambda>id. id \<noteq> R) P = P"
          by (auto simp: filter_id_conv)
        ultimately show ?thesis
          using True c unfolding step by (simp add: eff)
      next
        case False
        with IH c show ?thesis
          unfolding step by (auto simp: eff)
      qed
    qed
  qed
qed

lemma count_list_distinct: "distinct xs \<Longrightarrow> x \<in> set xs \<Longrightarrow> count_list xs x = 1"
  by (induction xs) auto

lemma nodesToRun_all:
  "\<forall>m \<in> set (ancestors @ [nodeName]). hasNoResult t m \<Longrightarrow>
     nodesToRun t ancestors nodeName = ancestors @ [nodeName]"
  by (simp add: nodesToRun_def)

lemma nodesToRun_excludes: "\<not> hasNoResult t m \<Longrightarrow> m \<notin> set (nodesToRun t ancestors nodeName)"
  by (auto simp: nodesToRun_def)

lemma nodesToRun_Nil:
  "nodesToRun t [] nodeName = (if hasNoResult t nodeName then [nodeName] else [])"
  by (simp add: nodesToRun_def)

lemma badge_member:
  assumes acyclic: "nodeName \<notin> set (getAncestors ns es nodeName)"
    and members: "\<forall>m \<in> set (getAncestors ns es nodeName @ [nodeName]).
           hasNoResult t m \<and> m \<noteq> [] \<and> m \<notin> dom objectPrototype \<and>
           mintRunId nodeName now rnd \<notin> set (pendingOf t m) \<and>
           completionKey (mintRunId nodeName now rnd) m \<notin> globalProcessedSet t"
    and m: "m \<in> set (getAncestors ns es nodeName @ [nodeName])"
  shows "pendingOf (fst (handleRunToNode ns es v t nodeName now rnd)) m =
           pendingOf t m @ [mintRunId nodeName now rnd]"
    and "count_list (pendingOf (fst (handleRunToNode ns es v t nodeName now rnd)) m)
           (mintRunId nodeName now rnd) = 1"
    and "\<forall>d \<in> set (ds :: CanvasData list). run_id d = Some (mintRunId nodeName now rnd) \<Longrightarrow>
         pendingOf (foldl ingest (fst (handleRunToNode ns es v t nodeName now rnd)) (map Some ds)) m =
           (if Some m \<in> completed_node ` set ds then pendingOf t m
            else pendingOf t m @ [mintRunId nodeName now rnd])"
proof -
  let ?R = "mintRunId nodeName now rnd"
  let ?t1 = "fst (handleRunToNode ns es v t nodeName now rnd)"
  from members have all: "\<forall>m \<in> set (getAncestors ns es nodeName @ [nodeName]). hasNoResult t m"
    by blast
  note run = nodesToRun_all [OF all]
  from members have plain: "\<forall>x \<in> set (nodesToRun t (getAncestors ns es nodeName) nodeName).
      x \<notin> dom objectPrototype"
    unfolding run by blast
  have "distinct (getAncestors ns es nodeName @ [nodeName])"
    using acyclic getAncestors_correct(2) [of ns es nodeName] by simp
  from this m have "count_list (getAncestors ns es nodeName @ [nodeName]) m = 1"
    by (rule count_list_distinct)
  with handleRunToNode_plain(1) [OF plain, of v now rnd m]
  show P: "pendingOf ?t1 m = pendingOf t m @ [?R]"
    by (simp add: run)
  from members m have fresh: "?R \<notin> set (pendingOf t m)" and mne: "m \<noteq> []"
    and key: "completionKey ?R m \<notin> globalProcessedSet ?t1"
    by (auto simp: handleRunToNode_processed)
  from fresh show "count_list (pendingOf ?t1 m) ?R = 1"
    unfolding P by (simp add: count_list_0_iff [THEN iffD2])
  assume "\<forall>d \<in> set ds. run_id d = Some ?R"
  from member_tracking [OF P fresh key mne mintRunId_nonempty this]
  show "pendingOf (foldl ingest ?t1 (map Some ds)) m =
           (if Some m \<in> completed_node ` set ds then pendingOf t m else pendingOf t m @ [?R])"
    by blast
qed

lemma badge_cached:
  assumes "\<not> hasNoResult t m"
  shows "m \<notin> set (nodesToRun t (getAncestors ns es nodeName) nodeName)"
    and "pendingRunIds (fst (handleRunToNode ns es v t nodeName now rnd)) m = pendingRunIds t m"
  using assms by (simp_all add: nodesToRun_excludes handleRunToNode_untouched)

text \<open>
  Claim C2 as stated fails when the target's name is among its own ancestors. The graph
  has the nodes with id \<open>X\<close>, name \<open>Z\<close> and with id \<open>q\<close>, name \<open>X\<close>, and the edge from
  \<open>q\<close> to \<open>X\<close>; its ids form no cycle. A run to the name \<open>X\<close> finds the ancestor named
  \<open>X\<close>, no member has a recorded result, and the name \<open>X\<close> receives the new run id
  twice.
\<close>

theorem badge_accounting_counterexample:
  "getAncestors [sampleNode ''X'' ''Z'' False, sampleNode ''q'' ''X'' False] [sampleEdge ''q'' ''X''] ''X''
     = [''X''] \<and>
   hasNoResult initialTracker ''X'' \<and>
   pendingOf (fst (handleRunToNode [sampleNode ''X'' ''Z'' False, sampleNode ''q'' ''X'' False]
       [sampleEdge ''q'' ''X''] None initialTracker ''X'' 0 ''r'')) ''X'' = [''X_0_r'', ''X_0_r''] \<and>
   count_list (pendingOf (fst (handleRunToNode [sampleNode ''X'' ''Z'' False, sampleNode ''q'' ''X'' False]
       [sampleEdge ''q'' ''X''] None initialTracker ''X'' 0 ''r'')) ''X'') (mintRunId ''X'' 0 ''r'') = 2"
  by (simp add: handleRunToNode_def getAncestors_def visitEdge_def normalize_def replaceAll_def
      nodesToRun_def hasNoResult_def addPending_def mintRunId_def decimal_0 sampleNode_def
      sampleEdge_def initialTracker_def pendingOf_def get_def objectPrototype_def Let_def)

text \<open>
  Claim C2, amended. Let \<open>nodeName\<close> not be among the names \<open>getAncestors\<close> returns for
  it, and let every member of \<open>ancestors @ [nodeName]\<close> have a non-empty name that
  \<open>Object.prototype\<close> does not hold, no recorded result, no pending entry of the new run
  id and no consumed key of it (the id is freshly minted). Then right after
  \<open>handleRunToNode\<close> every member's pending list is its old list followed by the new run
  id, which it holds exactly once; and after any deliveries \<open>ds\<close> of that run, in any
  order and with repetitions, a member's pending list is back to its old content exactly
  if its own completion is among \<open>ds\<close>, and still holds the run id otherwise. Whatever
  the state, a node with a recorded result is not in \<open>nodesToRun\<close> and keeps its entry
  of \<open>pendingRunIds\<close>.
\<close>

theorem badge_accounting:
  "(nodeName \<notin> set (getAncestors ns es nodeName) \<and>
    (\<forall>m \<in> set (getAncestors ns es nodeName @ [nodeName]).
        hasNoResult t m \<and> m \<noteq> [] \<and> m \<notin> dom objectPrototype \<and>
        mintRunId nodeName now rnd \<notin> set (pendingOf t m) \<and>
        completionKey (mintRunId nodeName now rnd) m \<notin> globalProcessedSet t)
    \<longrightarrow>
    (\<forall>m \<in> set (getAncestors ns es nodeName @ [nodeName]).
        pendingOf (fst (handleRunToNode ns es v t nodeName now rnd)) m =
          pendingOf t m @ [mintRunId nodeName now rnd] \<and>
        count_list (pendingOf (fst (handleRunToNode ns es v t nodeName now rnd)) m)
          (mintRunId nodeName now rnd) = 1 \<and>
        (\<forall>ds :: CanvasData list. (\<forall>d \<in> set ds. run_id d = Some (mintRunId nodeName now rnd)) \<longrightarrow>
           pendingOf (foldl ingest (fst (handleRunToNode ns es v t nodeName now rnd)) (map Some ds)) m =
             (if Some m \<in> completed_node ` set ds then pendingOf t m
              else pendingOf t m @ [mintRunId nodeName now rnd])))) \<and>
   (\<forall>m. \<not> hasNoResult t m \<longrightarrow>
      m \<notin> set (nodesToRun t (getAncestors ns es nodeName) nodeName) \<and>
      pendingRunIds (fst (handleRunToNode ns es v t nodeName now rnd)) m = pendingRunIds t m)"
proof (intro conjI impI ballI allI)
  fix m
  assume "\<not> hasNoResult t m"
  then show "m \<notin> set (nodesToRun t (getAncestors ns es nodeName) nodeName)"
    and "pendingRunIds (fst (handleRunToNode ns es v t nodeName now rnd)) m = pendingRunIds t m"
    by (rule badge_cached)+
next
  fix m
  assume h: "nodeName \<notin> set (getAncestors ns es nodeName) \<and>
    (\<forall>m \<in> set (getAncestors ns es nodeName @ [nodeName]).
        hasNoResult t m \<and> m \<noteq> [] \<and> m \<notin> dom objectPrototype \<and>
        mintRunId nodeName now rnd \<notin> set (pendingOf t m) \<and>
        completionKey (mintRunId nodeName now rnd) m \<notin> globalProcessedSet t)"
    and m: "m \<in> set (getAncestors ns es nodeName @ [nodeName])"
  from h have a: "nodeName \<notin> set (getAncestors ns es nodeName)" and
    b: "\<forall>m \<in> set (getAncestors ns es nodeName @ [nodeName]).
        hasNoResult t m \<and> m \<noteq> [] \<and> m \<notin> dom objectPrototype \<and>
        mintRunId nodeName now rnd \<notin> set (pendingOf t m) \<and>
        completionKey (mintRunId nodeName now rnd) m \<notin> globalProcessedSet t"
    by blast+
  show "pendingOf (fst (handleRunToNode ns es v t nodeName now rnd)) m =
          pendingOf t m @ [mintRunId nodeName now rnd]"
    using a b m by (rule badge_member(1))
  show "count_list (pendingOf (fst (handleRunToNode ns es v t nodeName now rnd)) m)
          (mintRunId nodeName now rnd) = 1"
    using a b m by (rule badge_member(2))
  fix ds :: "CanvasData list"
  assume "\<forall>d \<in> set ds. run_id d = Some (mintRunId nodeName now rnd)"
  with a b m show "pendingOf (foldl ingest (fst (handleRunToNode ns es v t nodeName now rnd)) (map Some ds)) m =
             (if Some m \<in> completed_node ` set ds then pendingOf t m
              else pendingOf t m @ [mintRunId nodeName now rnd])"
    by (rule badge_member(3))
qed

theorem badge_accounting_witness:
  "''C'' \<notin> set (getAncestors sampleNodes sampleEdges ''C'') \<and>
   set (getAncestors sampleNodes sampleEdges ''C'' @ [''C'']) = {''B'', ''C''} \<and>
   ''B'' \<notin> dom objectPrototype \<and> ''C'' \<notin> dom objectPrototype \<and>
   hasNoResult initialTracker ''B'' \<and> hasNoResult initialTracker ''C'' \<and>
   pendingOf (fst (handleRunToNode sampleNodes sampleEdges None initialTracker ''C'' 0 ''r'')) ''B''
     = [''C_0_r''] \<and>
   pendingOf (fst (handleRunToNode sampleNodes sampleEdges None initialTracker ''C'' 0 ''r'')) ''C''
     = [''C_0_r''] \<and>
   pendingOf (foldl ingest (fst (handleRunToNode sampleNodes sampleEdges None initialTracker ''C'' 0 ''r''))
      (map Some [completion ''C_0_r'' ''B'' []])) ''B'' = [] \<and>
   pendingOf (foldl ingest (fst (handleRunToNode sampleNodes sampleEdges None initialTracker ''C'' 0 ''r''))
      (map Some [completion ''C_0_r'' ''B'' []])) ''C'' = [''C_0_r''] \<and>
   pendingOf (foldl ingest (fst (handleRunToNode sampleNodes sampleEdges None initialTracker ''C'' 0 ''r''))
      (map Some [completion ''C_0_r'' ''B'' [], completion ''C_0_r'' ''C'' [resultNode ''C'']])) ''C'' = []"
proof -
  let ?t1 = "fst (handleRunToNode sampleNodes sampleEdges None initialTracker ''C'' 0 ''r'')"
  note R = sample_run_id
  have p0: "pendingOf initialTracker m = []" for m
    by (simp add: pendingOf_def initialTracker_def)
  have a: "''C'' \<notin> set (getAncestors sampleNodes sampleEdges ''C'')"
    by (simp add: sample_ancestors)
  have s: "set (getAncestors sampleNodes sampleEdges ''C'' @ [''C'']) = {''B'', ''C''}"
    by (simp add: sample_ancestors)
  have pl: "''B'' \<notin> dom objectPrototype" "''C'' \<notin> dom objectPrototype"
    by (simp_all add: dom_objectPrototype)
  have nr: "hasNoResult initialTracker ''B''" "hasNoResult initialTracker ''C''"
    using pl by (simp_all add: hasNoResult_def get_plain initialTracker_def)
  have h: "''C'' \<notin> set (getAncestors sampleNodes sampleEdges ''C'') \<and>
    (\<forall>m \<in> set (getAncestors sampleNodes sampleEdges ''C'' @ [''C'']).
        hasNoResult initialTracker m \<and> m \<noteq> [] \<and> m \<notin> dom objectPrototype \<and>
        mintRunId ''C'' 0 ''r'' \<notin> set (pendingOf initialTracker m) \<and>
        completionKey (mintRunId ''C'' 0 ''r'') m \<notin> globalProcessedSet initialTracker)"
    using pl nr by (simp add: sample_ancestors p0) (simp add: initialTracker_def)
  note main = badge_accounting [where nodeName = "''C''" and ns = sampleNodes and es = sampleEdges
      and t = initialTracker and now = 0 and rnd = "''r''" and v = None,
      THEN conjunct1, THEN mp, OF h]
  have mB: "''B'' \<in> set (getAncestors sampleNodes sampleEdges ''C'' @ [''C''])"
    and mC: "''C'' \<in> set (getAncestors sampleNodes sampleEdges ''C'' @ [''C''])"
    by (simp_all add: sample_ancestors)
  note B = bspec [OF main mB] and C = bspec [OF main mC]
  have d1: "\<forall>d \<in> set [completion ''C_0_r'' ''B'' []]. run_id d = Some (mintRunId ''C'' 0 ''r'')"
    by (simp add: completion_def sampleValue_def R)
  have d2: "\<forall>d \<in> set [completion ''C_0_r'' ''B'' [], completion ''C_0_r'' ''C'' [resultNode ''C'']].
      run_id d = Some (mintRunId ''C'' 0 ''r'')"
    by (simp add: completion_def sampleValue_def R)
  from B have b1: "pendingOf ?t1 ''B'' = [''C_0_r'']"
    by (simp add: p0 R)
  from C have c1: "pendingOf ?t1 ''C'' = [''C_0_r'']"
    by (simp add: p0 R)
  from B [THEN conjunct2, THEN conjunct2, THEN spec, THEN mp, OF d1]
  have b2: "pendingOf (foldl ingest ?t1 (map Some [completion ''C_0_r'' ''B'' []])) ''B'' = []"
    by (simp add: p0 R completion_def sampleValue_def)
  from C [THEN conjunct2, THEN conjunct2, THEN spec, THEN mp, OF d1]
  have c2: "pendingOf (foldl ingest ?t1 (map Some [completion ''C_0_r'' ''B'' []])) ''C'' = [''C_0_r'']"
    by (simp add: p0 R completion_def sampleValue_def)
  from C [THEN conjunct2, THEN conjunct2, THEN spec, THEN mp, OF d2]
  have c3: "pendingOf (foldl ingest ?t1
      (map Some [completion ''C_0_r'' ''B'' [], completion ''C_0_r'' ''C'' [resultNode ''C'']])) ''C'' = []"
    by (simp add: p0 R completion_def sampleValue_def)
  from a s pl nr b1 c1 b2 c2 c3 show ?thesis by blast
qed

text \<open>
  Claim C8 at a failing input. The sample graph is held as the value and a run to \<open>C\<close>
  is triggered. The handler marks \<open>B\<close> and \<open>C\<close> pending and records the run, then throws
  \<open>ReferenceError\<close> while it builds the object literal, because \<open>itemListValues\<close> is
  declared nowhere: \<open>gradio.props.value\<close> is not assigned and nothing is dispatched,
  where the claim has a command emitted.
\<close>

theorem run_command_failing_input:
  "snd (handleRunToNode sampleNodes sampleEdges (Some (sampleValue sampleNodes sampleEdges))
         initialTracker ''C'' 0 ''r'') = Threw ReferenceError \<and>
   pendingOf (fst (handleRunToNode sampleNodes sampleEdges (Some (sampleValue sampleNodes sampleEdges))
         initialTracker ''C'' 0 ''r'')) ''B'' = [''C_0_r''] \<and>
   pendingOf (fst (handleRunToNode sampleNodes sampleEdges (Some (sampleValue sampleNodes sampleEdges))
         initialTracker ''C'' 0 ''r'')) ''C'' = [''C_0_r''] \<and>
   runIdToNodes (fst (handleRunToNode sampleNodes sampleEdges (Some (sampleValue sampleNodes sampleEdges))
         initialTracker ''C'' 0 ''r'')) ''C_0_r'' = Some [''B'', ''C'']"
proof -
  have pl: "''B'' \<notin> dom objectPrototype" "''C'' \<notin> dom objectPrototype"
    by (simp_all add: dom_objectPrototype)
  then have run: "nodesToRun initialTracker (getAncestors sampleNodes sampleEdges ''C'') ''C'' = [''B'', ''C'']"
    by (simp add: sample_ancestors nodesToRun_def hasNoResult_def get_plain initialTracker_def)
  with pl have plain: "\<forall>x \<in> set (nodesToRun initialTracker (getAncestors sampleNodes sampleEdges ''C'') ''C'').
      x \<notin> dom objectPrototype"
    by simp
  have p0: "pendingOf initialTracker m = []" for m
    by (simp add: pendingOf_def initialTracker_def)
  from handleRunToNode_plain [OF plain, of "Some (sampleValue sampleNodes sampleEdges)" 0 "''r''"]
  show ?thesis
    by (simp add: run sample_run_id p0)
qed

text \<open>With a held value the handler always ends in an exception.\<close>

lemma handleRunToNode_held_value: "\<exists>e. snd (handleRunToNode ns es (Some d) t nodeName now rnd) = Threw e"
  by (simp add: handleRunToNode_outcome split: option.splits)

text \<open>
  Claim C10 as stated fails when another node's id is the normalised name: the incoming
  edge of the node named \<open>a b\<close> ends at its id \<open>m1\<close>, which differs from \<open>a_b\<close>, yet
  \<open>getAncestors\<close> follows the edge into the node with id \<open>a_b\<close> and returns \<open>P\<close>.
\<close>

theorem ancestry_mismatch_counterexample:
  "''m1'' \<noteq> normalize ''a b'' \<and>
   getAncestors [sampleNode ''p'' ''P'' False, sampleNode ''m1'' ''a b'' False, sampleNode ''a_b'' ''K'' False]
     [sampleEdge ''p'' ''m1'', sampleEdge ''p'' ''a_b''] ''a b'' = [''P'']"
  by (simp add: getAncestors_def visitEdge_def sampleNode_def sampleEdge_def normalize_def replaceAll_def)

lemma feeds_iff:
  "(\<forall>a. \<not> feeds ns es nodeName a) \<longleftrightarrow>
     (\<forall>edge \<in> set es. to_node edge = normalize nodeName \<longrightarrow>
        (case find (\<lambda>n. node_id n = from_node edge) ns of
           None \<Rightarrow> True
         | Some sourceNode \<Rightarrow> is_input_node sourceNode))"
  by (auto simp: feeds_def source_def split: option.splits if_splits)

text \<open>
  Claim C10, amended. \<open>getAncestors\<close> returns the empty list exactly if every edge whose
  \<open>to_node\<close> equals the normalised name leads back to no node or to an input node; the
  id of the node named is never consulted. So if no edge's \<open>to_node\<close> equals the
  normalised name, the ancestors are empty, the nodes to run are the node alone if it has
  no recorded result and none otherwise, and a run to that name changes the pending list
  of no other node; where the name is not one that \<open>Object.prototype\<close> holds, the node's
  own list gains the run id if the node has no recorded result and stays as it is
  otherwise.
\<close>

theorem ancestry_by_normalized_name:
  "(getAncestors ns es nodeName = [] \<longleftrightarrow>
      (\<forall>edge \<in> set es. to_node edge = normalize nodeName \<longrightarrow>
         (case find (\<lambda>n. node_id n = from_node edge) ns of
            None \<Rightarrow> True
          | Some sourceNode \<Rightarrow> is_input_node sourceNode))) \<and>
   ((\<forall>edge \<in> set es. to_node edge \<noteq> normalize nodeName) \<longrightarrow>
      getAncestors ns es nodeName = [] \<and>
      nodesToRun t (getAncestors ns es nodeName) nodeName =
        (if hasNoResult t nodeName then [nodeName] else []) \<and>
      (\<forall>m. m \<noteq> nodeName \<longrightarrow>
         pendingRunIds (fst (handleRunToNode ns es v t nodeName now rnd)) m = pendingRunIds t m) \<and>
      (nodeName \<notin> dom objectPrototype \<longrightarrow>
         pendingOf (fst (handleRunToNode ns es v t nodeName now rnd)) nodeName =
           (if hasNoResult t nodeName then pendingOf t nodeName @ [mintRunId nodeName now rnd]
            else pendingOf t nodeName)))"
proof (intro conjI impI)
  show iff: "getAncestors ns es nodeName = [] \<longleftrightarrow>
      (\<forall>edge \<in> set es. to_node edge = normalize nodeName \<longrightarrow>
         (case find (\<lambda>n. node_id n = from_node edge) ns of
            None \<Rightarrow> True
          | Some sourceNode \<Rightarrow> is_input_node sourceNode))"
    unfolding getAncestors_empty_iff by (rule feeds_iff)
  assume "\<forall>edge \<in> set es. to_node edge \<noteq> normalize nodeName"
  with iff show e: "getAncestors ns es nodeName = []"
    by simp
  show run: "nodesToRun t (getAncestors ns es nodeName) nodeName =
        (if hasNoResult t nodeName then [nodeName] else [])"
    unfolding e by (rule nodesToRun_Nil)
  show "\<forall>m. m \<noteq> nodeName \<longrightarrow>
         pendingRunIds (fst (handleRunToNode ns es v t nodeName now rnd)) m = pendingRunIds t m"
    by (simp add: handleRunToNode_untouched run)
  assume "nodeName \<notin> dom objectPrototype"
  then have "\<forall>x \<in> set (nodesToRun t (getAncestors ns es nodeName) nodeName). x \<notin> dom objectPrototype"
    by (simp add: run)
  from handleRunToNode_plain(1) [OF this, of v now rnd nodeName]
  show "pendingOf (fst (handleRunToNode ns es v t nodeName now rnd)) nodeName =
        (if hasNoResult t nodeName then pendingOf t nodeName @ [mintRunId nodeName now rnd]
         else pendingOf t nodeName)"
    by (simp add: run)
qed

theorem ancestry_by_normalized_name_witness:
  "to_node (sampleEdge ''p'' ''m1'') \<noteq> normalize ''a b'' \<and>
   ''a b'' \<notin> dom objectPrototype \<and>
   getAncestors [sampleNode ''p'' ''P'' False, sampleNode ''m1'' ''a b'' False]
     [sampleEdge ''p'' ''m1''] ''a b'' = [] \<and>
   pendingOf (fst (handleRunToNode [sampleNode ''p'' ''P'' False, sampleNode ''m1'' ''a b'' False]
     [sampleEdge ''p'' ''m1''] None initialTracker ''a b'' 0 ''r'')) ''a b'' = [''a b_0_r''] \<and>
   pendingRunIds (fst (handleRunToNode [sampleNode ''p'' ''P'' False, sampleNode ''m1'' ''a b'' False]
     [sampleEdge ''p'' ''m1''] None initialTracker ''a b'' 0 ''r'')) ''P'' = None"
proof -
  have h: "\<forall>edge \<in> set [sampleEdge ''p'' ''m1'']. to_node edge \<noteq> normalize ''a b''"
    by (simp add: sampleEdge_def normalize_def replaceAll_def)
  have pl: "''a b'' \<notin> dom objectPrototype"
    by (simp add: dom_objectPrototype)
  have n: "hasNoResult initialTracker ''a b''" "pendingOf initialTracker ''a b'' = []"
    "pendingRunIds initialTracker ''P'' = None" "mintRunId ''a b'' 0 ''r'' = ''a b_0_r''"
    using pl by (simp_all add: hasNoResult_def get_plain pendingOf_def initialTracker_def mintRunId_def decimal_0)
  from ancestry_by_normalized_name [of "[sampleNode ''p'' ''P'' False, sampleNode ''m1'' ''a b'' False]"
      "[sampleEdge ''p'' ''m1'']" "''a b''" initialTracker None 0 "''r''"] h pl n
  show ?thesis by simp
qed

end
